theory Spec2Isabelle
  imports Main "HOL-Library.Word"
begin

section \<open>Data model of the async registry\<close>

text \<open>
  Pointers are addresses into an explicit store; \<open>nullptr\<close> is \<open>None\<close>.
  The thread executing a call (\<open>std::this_thread::get_id()\<close>) is an argument of
  every operation that reads it.
\<close>

type_synonym addr = nat
type_synonym thread_id = nat

text \<open>\<open>struct Thread\<close>; the field \<open>id\<close> is named \<open>thread_ident\<close> here.\<close>

record Thread =
  thread_name :: string
  thread_ident :: thread_id

text \<open>\<open>std::source_location\<close>, as far as the registry reads it.\<close>

record source_location_arg =
  loc_file_name :: string
  loc_function_name :: string
  loc_line :: "32 word"

record SourceLocationSnapshot =
  snap_file_name :: string
  snap_function_name :: string
  snap_line :: "32 word"

record SourceLocation =
  file_name :: string
  function_name :: string
  line :: "32 word"

datatype State = Running | Suspended | Resolved | Deleted

datatype Waiter = NoWaiter | AsyncWaiter addr | SyncWaiter thread_id

record PromiseSnapshot =
  snap_id :: addr
  snap_thread :: Thread
  snap_source_location :: SourceLocationSnapshot
  snap_waiter :: Waiter
  snap_state :: State

text \<open>
  \<open>struct Promise\<close>. The registry header works on \<open>PromiseInList*\<close>, whose declaration
  is not part of the sources at hand; the list fields it uses (\<open>registry\<close>, \<open>next\<close>,
  \<open>previous\<close>, \<open>next_to_free\<close>) are those of \<open>Promise\<close>, so one record serves both.
  The field \<open>next\<close> is written \<open>next'\<close>.
\<close>

record Promise =
  thread :: Thread
  source_location :: SourceLocation
  waiter :: Waiter
  state :: State
  registry :: "addr option"
  next' :: "addr option"
  previous :: "addr option"
  next_to_free :: "addr option"

text \<open>
  \<open>struct ThreadRegistry\<close>. \<open>ref_count\<close> is an atomic \<open>size_t\<close>: a 64-bit word, so
  \<open>fetch_sub\<close> at zero wraps. The mutex only excludes a concurrent iteration from a
  concurrent collection; in a sequential run every \<open>lock_guard\<close> is taken and released
  within the call, so it carries no state here.
\<close>

record ThreadRegistry =
  owning_thread :: thread_id
  free_head :: "addr option"
  promise_head :: "addr option"
  ref_count :: "64 word"

text \<open>
  The store: promise records and registries by address, and the log of
  \<open>destroy()\<close> calls in the order they were made.
\<close>

record world =
  promises :: "addr \<rightharpoonup> Promise"
  registries :: "addr \<rightharpoonup> ThreadRegistry"
  destroyed :: "addr list"

text \<open>\<open>struct AddToAsyncRegistry\<close>: a pointer to the record, null when the handle is empty.\<close>

record AddToAsyncRegistry =
  promise_in_registry :: "addr option"

text \<open>
  Modelled from the spec: the macro \<open>ADB_PROD_ASSERT\<close> is not part of the sources at
  hand; a violated assertion is a ``fatal assertion'' that aborts the process. It is
  the result \<open>AssertionFailed\<close>. Dereferencing a pointer that is null or points to no
  object is the result \<open>InvalidPointer\<close>.
\<close>

datatype error = AssertionFailed | InvalidPointer

section \<open>Promise records\<close>

definition SourceLocation_snapshot :: "SourceLocation \<Rightarrow> SourceLocationSnapshot" where
  "SourceLocation_snapshot sl =
     \<lparr>snap_file_name = file_name sl, snap_function_name = function_name sl,
      snap_line = line sl\<rparr>"

definition Promise_id :: "addr \<Rightarrow> addr" where
  "Promise_id this = this"

definition snapshot :: "addr \<Rightarrow> world \<Rightarrow> error + PromiseSnapshot" where
  "snapshot this w =
     (case promises w this of
        None \<Rightarrow> Inl InvalidPointer
      | Some p \<Rightarrow>
          Inr \<lparr>snap_id = Promise_id this, snap_thread = thread p,
               snap_source_location = SourceLocation_snapshot (source_location p),
               snap_waiter = waiter p, snap_state = state p\<rparr>)"

section \<open>Thread registry\<close>

text \<open>
  \<open>make\<close>: \<open>new ThreadRegistry{}\<close> with the default member initialisers. The address
  the allocator returns is the argument \<open>this\<close>.
\<close>

definition make :: "addr \<Rightarrow> thread_id \<Rightarrow> world \<Rightarrow> world" where
  "make this tid w =
     w\<lparr>registries := (registries w)(this \<mapsto>
         \<lparr>owning_thread = tid, free_head = None, promise_head = None, ref_count = 0\<rparr>)\<rparr>"

definition increment_ref_count :: "addr \<Rightarrow> world \<Rightarrow> error + world" where
  "increment_ref_count this w =
     (case registries w this of
        None \<Rightarrow> Inl InvalidPointer
      | Some r \<Rightarrow> Inr (w\<lparr>registries := (registries w)(this \<mapsto> r\<lparr>ref_count := ref_count r + 1\<rparr>)\<rparr>))"

definition add :: "addr \<Rightarrow> thread_id \<Rightarrow> world \<Rightarrow> addr \<Rightarrow> error + world" where
  "add this tid w promise =
     (case registries w this of
        None \<Rightarrow> Inl InvalidPointer
      | Some r \<Rightarrow>
          if tid \<noteq> owning_thread r then Inl AssertionFailed
          else
            (case promises w promise of
               None \<Rightarrow> Inl InvalidPointer
             | Some p \<Rightarrow>
                 let current_head = promise_head r;
                     h1 = (promises w)(promise \<mapsto> p\<lparr>registry := Some this, next' := current_head\<rparr>)
                 in
                   (case (case current_head of
                            None \<Rightarrow> Inr h1
                          | Some c \<Rightarrow>
                              (case h1 c of
                                 None \<Rightarrow> Inl InvalidPointer
                               | Some pc \<Rightarrow> Inr (h1(c \<mapsto> pc\<lparr>previous := Some promise\<rparr>)))) of
                      Inl e \<Rightarrow> Inl e
                    | Inr h2 \<Rightarrow>
                        increment_ref_count this
                          (w\<lparr>promises := h2,
                             registries := (registries w)(this \<mapsto> r\<lparr>promise_head := Some promise\<rparr>)\<rparr>))))"

text \<open>
  The loop of \<open>for_promise\<close>: the callback is applied to every record from \<open>current\<close>
  along \<open>next\<close>; the result lists the callback's results in call order. A walk that
  never reaches \<open>nullptr\<close> has no result (\<open>None\<close>).
\<close>

partial_function (option) for_promise_loop ::
  "(addr \<Rightarrow> 'a) \<Rightarrow> (addr \<rightharpoonup> Promise) \<Rightarrow> addr option \<Rightarrow> (error + 'a list) option" where
  "for_promise_loop function h current =
     (case current of
        None \<Rightarrow> Some (Inr [])
      | Some c \<Rightarrow>
          (case h c of
             None \<Rightarrow> Some (Inl InvalidPointer)
           | Some p \<Rightarrow>
               Option.bind (for_promise_loop function h (next' p))
                 (\<lambda>res. Some (case res of Inl e \<Rightarrow> Inl e | Inr ys \<Rightarrow> Inr (function c # ys)))))"

definition for_promise :: "addr \<Rightarrow> (addr \<Rightarrow> 'a) \<Rightarrow> world \<Rightarrow> (error + 'a list) option" where
  "for_promise this function w =
     (case registries w this of
        None \<Rightarrow> Some (Inl InvalidPointer)
      | Some r \<Rightarrow> for_promise_loop function (promises w) (promise_head r))"

definition remove :: "addr \<Rightarrow> world \<Rightarrow> addr \<Rightarrow> error + world" where
  "remove this w promise =
     (case promises w promise of
        None \<Rightarrow> Inl InvalidPointer
      | Some p \<Rightarrow>
          let nxt = next' p; prv = previous p in
            (case (case prv of
                     None \<Rightarrow>
                       (case registries w this of
                          None \<Rightarrow> Inl InvalidPointer
                        | Some r \<Rightarrow>
                            Inr (w\<lparr>registries := (registries w)(this \<mapsto> r\<lparr>promise_head := nxt\<rparr>)\<rparr>))
                   | Some q \<Rightarrow>
                       (case promises w q of
                          None \<Rightarrow> Inl InvalidPointer
                        | Some pq \<Rightarrow> Inr (w\<lparr>promises := (promises w)(q \<mapsto> pq\<lparr>next' := nxt\<rparr>)\<rparr>))) of
               Inl e \<Rightarrow> Inl e
             | Inr w1 \<Rightarrow>
                 (case nxt of
                    None \<Rightarrow> Inr w1
                  | Some n \<Rightarrow>
                      (case promises w1 n of
                         None \<Rightarrow> Inl InvalidPointer
                       | Some pn \<Rightarrow>
                           Inr (w1\<lparr>promises := (promises w1)(n \<mapsto> pn\<lparr>previous := prv\<rparr>)\<rparr>)))))"

text \<open>
  Modelled from the spec: \<open>destroy()\<close> is a pure virtual function of \<open>PromiseInList\<close>
  whose implementations are not part of the sources at hand. The spec has the
  collection ``destroy the record'': it ``unlinks and frees all marked records'',
  this is the record's ``physical reclamation'', and no record is ``observed after
  destruction''. So \<open>destroy\<close> takes the record out of the store, and the call is
  recorded in \<open>destroyed\<close>.
\<close>

definition destroy :: "addr \<Rightarrow> world \<Rightarrow> error + world" where
  "destroy this w =
     (case promises w this of
        None \<Rightarrow> Inl InvalidPointer
      | Some p \<Rightarrow>
          Inr (w\<lparr>promises := (promises w)(this := None), destroyed := destroyed w @ [this]\<rparr>))"

text \<open>
  The loop of \<open>garbage_collect\<close>. Its step \<open>current = current->next_to_free\<close> comes
  after \<open>current->destroy()\<close> and reads the record just destroyed.
\<close>

partial_function (option) garbage_collect_loop ::
  "addr \<Rightarrow> addr option \<Rightarrow> world \<Rightarrow> (error + world) option" where
  "garbage_collect_loop this current w =
     (case current of
        None \<Rightarrow> Some (Inr w)
      | Some c \<Rightarrow>
          (case remove this w c of
             Inl e \<Rightarrow> Some (Inl e)
           | Inr w1 \<Rightarrow>
               (case destroy c w1 of
                  Inl e \<Rightarrow> Some (Inl e)
                | Inr w2 \<Rightarrow>
                    (case promises w2 c of
                       None \<Rightarrow> Some (Inl InvalidPointer)
                     | Some p \<Rightarrow> garbage_collect_loop this (next_to_free p) w2))))"

definition garbage_collect :: "addr \<Rightarrow> thread_id \<Rightarrow> world \<Rightarrow> (error + world) option" where
  "garbage_collect this tid w =
     (case registries w this of
        None \<Rightarrow> Some (Inl InvalidPointer)
      | Some r \<Rightarrow>
          if \<not> (ref_count r = 0 \<or> tid = owning_thread r) then Some (Inl AssertionFailed)
          else
            garbage_collect_loop this (free_head r)
              (w\<lparr>registries := (registries w)(this \<mapsto> r\<lparr>free_head := None\<rparr>)\<rparr>))"

text \<open>\<open>delete this\<close>.\<close>

definition delete_this :: "addr \<Rightarrow> world \<Rightarrow> world" where
  "delete_this this w = w\<lparr>registries := (registries w)(this := None)\<rparr>"

definition decrement_ref_count :: "addr \<Rightarrow> thread_id \<Rightarrow> world \<Rightarrow> (error + world) option" where
  "decrement_ref_count this tid w =
     (case registries w this of
        None \<Rightarrow> Some (Inl InvalidPointer)
      | Some r \<Rightarrow>
          let old = ref_count r;
              w1 = w\<lparr>registries := (registries w)(this \<mapsto> r\<lparr>ref_count := old - 1\<rparr>)\<rparr>
          in
            if old = 1 then
              Option.bind (garbage_collect this tid w1)
                (\<lambda>res. Some (case res of Inl e \<Rightarrow> Inl e | Inr w2 \<Rightarrow> Inr (delete_this this w2)))
            else Some (Inr w1))"

text \<open>
  \<open>compare_exchange_weak\<close> on a cell holding \<open>cell\<close>: the result is the success flag,
  the cell's new value and the new value of \<open>expected\<close>. The weak form may fail
  although the values agree; \<open>spurious\<close> says whether this attempt does.
\<close>

definition compare_exchange_weak ::
  "bool \<Rightarrow> addr option \<Rightarrow> addr option \<Rightarrow> addr option \<Rightarrow> bool \<times> addr option \<times> addr option" where
  "compare_exchange_weak spurious cell expected desired =
     (if cell = expected \<and> \<not> spurious then (True, desired, expected) else (False, cell, cell))"

text \<open>
  The do-while loop of \<open>mark_for_deletion\<close>. \<open>fl\<close> lists, attempt by attempt, whether
  the exchange fails spuriously; past its end no attempt does.
\<close>

function mark_loop ::
  "bool list \<Rightarrow> addr \<Rightarrow> addr \<Rightarrow> addr option \<Rightarrow> world \<Rightarrow> error + world" where
  "mark_loop fl this promise current_head w =
     (case promises w promise of
        None \<Rightarrow> Inl InvalidPointer
      | Some p \<Rightarrow>
          (case registries w this of
             None \<Rightarrow> Inl InvalidPointer
           | Some r \<Rightarrow>
               let h1 = (promises w)(promise \<mapsto> p\<lparr>next_to_free := current_head\<rparr>);
                   res = compare_exchange_weak (fl \<noteq> [] \<and> hd fl) (free_head r) current_head (Some promise);
                   w1 = w\<lparr>promises := h1,
                          registries := (registries w)(this \<mapsto> r\<lparr>free_head := fst (snd res)\<rparr>)\<rparr>
               in if fst res then Inr w1
                  else mark_loop (tl fl) this promise (snd (snd res)) w1))"
  by pat_completeness auto
termination
proof (relation "measure (\<lambda>(fl, this, promise, current_head, w).
        2 * length fl +
        (if map_option free_head (registries w this) = Some current_head then 0 else 1))")
  show "wf (measure (\<lambda>(fl, this, promise, current_head, w).
        2 * length fl +
        (if map_option free_head (registries w this) = Some current_head then 0 else 1)))"
    by simp
next
  fix fl :: "bool list" and this promise :: addr and current_head :: "addr option"
    and w :: world and p r h1 res w1
  assume r: "registries w this = Some r"
    and res: "res = compare_exchange_weak (fl \<noteq> [] \<and> hd fl) (free_head r) current_head (Some promise)"
    and w1: "w1 = w\<lparr>promises := h1,
                 registries := (registries w)(this \<mapsto> r\<lparr>free_head := fst (snd res)\<rparr>)\<rparr>"
    and fail: "\<not> fst res"
  show "((tl fl, this, promise, snd (snd res), w1), fl, this, promise, current_head, w)
          \<in> measure (\<lambda>(fl, this, promise, current_head, w).
        2 * length fl +
        (if map_option free_head (registries w this) = Some current_head then 0 else 1))"
  proof (cases "free_head r = current_head")
    case True
    with fail res have "fl \<noteq> []" by (auto simp: compare_exchange_weak_def)
    then obtain b bs where "fl = b # bs" by (cases fl) auto
    then show ?thesis using r res w1 by (simp add: compare_exchange_weak_def)
  next
    case False
    then show ?thesis using r res w1 by (simp add: compare_exchange_weak_def)
  qed
qed

definition mark_for_deletion ::
  "addr \<Rightarrow> thread_id \<Rightarrow> bool list \<Rightarrow> world \<Rightarrow> addr \<Rightarrow> (error + world) option" where
  "mark_for_deletion this tid fl w promise =
     (case promises w promise of
        None \<Rightarrow> Some (Inl InvalidPointer)
      | Some p \<Rightarrow>
          if registry p \<noteq> Some this then Some (Inl AssertionFailed)
          else
            (case registries w this of
               None \<Rightarrow> Some (Inl InvalidPointer)
             | Some r \<Rightarrow>
                 (case mark_loop fl this promise (free_head r) w of
                    Inl e \<Rightarrow> Some (Inl e)
                  | Inr w1 \<Rightarrow> decrement_ref_count this tid w1)))"

section \<open>Registration handle\<close>

text \<open>The defaulted constructor: \<open>promise_in_registry = nullptr\<close>.\<close>

definition AddToAsyncRegistry_default :: AddToAsyncRegistry where
  "AddToAsyncRegistry_default = \<lparr>promise_in_registry = None\<rparr>"

definition set_promise_waiter_async ::
  "AddToAsyncRegistry \<Rightarrow> addr \<Rightarrow> world \<Rightarrow> error + world" where
  "set_promise_waiter_async hdl waiter_arg w =
     (case promise_in_registry hdl of
        None \<Rightarrow> Inr w
      | Some a \<Rightarrow>
          (case promises w a of
             None \<Rightarrow> Inl InvalidPointer
           | Some p \<Rightarrow> Inr (w\<lparr>promises := (promises w)(a \<mapsto> p\<lparr>waiter := AsyncWaiter waiter_arg\<rparr>)\<rparr>)))"

definition set_promise_waiter_sync ::
  "AddToAsyncRegistry \<Rightarrow> thread_id \<Rightarrow> world \<Rightarrow> error + world" where
  "set_promise_waiter_sync hdl waiter_arg w =
     (case promise_in_registry hdl of
        None \<Rightarrow> Inr w
      | Some a \<Rightarrow>
          (case promises w a of
             None \<Rightarrow> Inl InvalidPointer
           | Some p \<Rightarrow> Inr (w\<lparr>promises := (promises w)(a \<mapsto> p\<lparr>waiter := SyncWaiter waiter_arg\<rparr>)\<rparr>)))"

text \<open>\<open>id()\<close>: the record's address, or \<open>nullptr\<close>.\<close>

definition handle_id :: "AddToAsyncRegistry \<Rightarrow> addr option" where
  "handle_id hdl =
     (case promise_in_registry hdl of
        Some a \<Rightarrow> Some (Promise_id a)
      | None \<Rightarrow> None)"

definition update_source_location ::
  "AddToAsyncRegistry \<Rightarrow> source_location_arg \<Rightarrow> world \<Rightarrow> error + world" where
  "update_source_location hdl loc w =
     (case promise_in_registry hdl of
        None \<Rightarrow> Inr w
      | Some a \<Rightarrow>
          (case promises w a of
             None \<Rightarrow> Inl InvalidPointer
           | Some p \<Rightarrow>
               Inr (w\<lparr>promises := (promises w)(a \<mapsto>
                      p\<lparr>source_location := (source_location p)\<lparr>line := loc_line loc\<rparr>\<rparr>)\<rparr>)))"

definition update_state :: "AddToAsyncRegistry \<Rightarrow> State \<Rightarrow> world \<Rightarrow> error + world" where
  "update_state hdl st w =
     (case promise_in_registry hdl of
        None \<Rightarrow> Inr w
      | Some a \<Rightarrow>
          (case promises w a of
             None \<Rightarrow> Inl InvalidPointer
           | Some p \<Rightarrow> Inr (w\<lparr>promises := (promises w)(a \<mapsto> p\<lparr>state := st\<rparr>)\<rparr>)))"

text \<open>
  Modelled from the spec: \<open>Promise::mark_for_deletion\<close> and the destructor
  \<open>~AddToAsyncRegistry\<close> are declared in the sources at hand but defined elsewhere.
  The spec: ``On destruction the handle calls \<open>mark_for_deletion\<close> on the record's
  registry. If the handle was never attached [...], destruction is a no-op.''
\<close>

definition Promise_mark_for_deletion ::
  "addr \<Rightarrow> thread_id \<Rightarrow> bool list \<Rightarrow> world \<Rightarrow> (error + world) option" where
  "Promise_mark_for_deletion this tid fl w =
     (case promises w this of
        None \<Rightarrow> Some (Inl InvalidPointer)
      | Some p \<Rightarrow>
          (case registry p of
             None \<Rightarrow> Some (Inl InvalidPointer)
           | Some reg \<Rightarrow> mark_for_deletion reg tid fl w this))"

definition AddToAsyncRegistry_destructor ::
  "AddToAsyncRegistry \<Rightarrow> thread_id \<Rightarrow> bool list \<Rightarrow> world \<Rightarrow> (error + world) option" where
  "AddToAsyncRegistry_destructor hdl tid fl w =
     (case promise_in_registry hdl of
        None \<Rightarrow> Some (Inr w)
      | Some a \<Rightarrow> Promise_mark_for_deletion a tid fl w)"

section \<open>The lists a registry's store represents\<close>

fun hdo :: "'a list \<Rightarrow> 'a option" where
  "hdo [] = None"
| "hdo (x # xs) = Some x"

text \<open>The element after, and the element before, \<open>a\<close> in a list.\<close>

fun succ_in :: "'a list \<Rightarrow> 'a \<Rightarrow> 'a option" where
  "succ_in (x # y # xs) a = (if a = x then Some y else succ_in (y # xs) a)"
| "succ_in _ a = None"

fun pred_in :: "'a list \<Rightarrow> 'a \<Rightarrow> 'a option" where
  "pred_in (x # y # xs) a = (if a = y then Some x else pred_in (y # xs) a)"
| "pred_in _ a = None"

text \<open>
  The records \<open>xs\<close> form the live list from \<open>promise_head\<close>, linked forwards by \<open>next\<close>
  and backwards by \<open>previous\<close>.
\<close>

definition live_list :: "(addr \<rightharpoonup> Promise) \<Rightarrow> addr list \<Rightarrow> bool" where
  "live_list h xs \<longleftrightarrow>
     distinct xs \<and>
     (\<forall>a\<in>set xs. \<exists>p. h a = Some p \<and> next' p = succ_in xs a \<and> previous p = pred_in xs a)"

text \<open>The records \<open>fs\<close> form the free list from \<open>free_head\<close>, linked by \<open>next_to_free\<close>.\<close>

definition free_list :: "(addr \<rightharpoonup> Promise) \<Rightarrow> addr list \<Rightarrow> bool" where
  "free_list h fs \<longleftrightarrow>
     distinct fs \<and> (\<forall>a\<in>set fs. \<exists>p. h a = Some p \<and> next_to_free p = succ_in fs a)"

text \<open>Two stores hold the same records up to the fields \<open>next\<close> and \<open>previous\<close>.\<close>

definition unlinked :: "Promise \<Rightarrow> Promise" where
  "unlinked p = p\<lparr>next' := None, previous := None\<rparr>"

definition only_links_changed :: "(addr \<rightharpoonup> Promise) \<Rightarrow> (addr \<rightharpoonup> Promise) \<Rightarrow> bool" where
  "only_links_changed h h' \<longleftrightarrow> (\<forall>a. map_option unlinked (h' a) = map_option unlinked (h a))"

text \<open>
  The registry at \<open>this\<close>, owned by thread \<open>owner\<close>, holds the live list \<open>xs\<close> (head
  first) and the free list \<open>fs\<close> (head first); no destroyed record is live, and none
  was destroyed twice.
\<close>

definition registry_inv :: "addr \<Rightarrow> thread_id \<Rightarrow> world \<Rightarrow> addr list \<Rightarrow> addr list \<Rightarrow> bool" where
  "registry_inv this owner w xs fs \<longleftrightarrow>
     (\<exists>r. registries w this = Some r \<and> owning_thread r = owner \<and>
          promise_head r = hdo xs \<and> free_head r = hdo fs) \<and>
     live_list (promises w) xs \<and> free_list (promises w) fs \<and> set fs \<subseteq> set xs \<and>
     (\<forall>a\<in>set xs. \<exists>p. promises w a = Some p \<and> registry p = Some this) \<and>
     distinct (destroyed w) \<and> set (destroyed w) \<inter> set xs = {}"

text \<open>
  The states of the registry at \<open>this\<close> that its owner thread and the other threads
  reach through the registry's operations, with the records inserted and not yet
  collected (\<open>xs\<close>, latest first) and those marked since the last collection (\<open>fs\<close>,
  latest first):
  \<^item> the registry is made by its owner;
  \<^item> a record is constructed at an unused address;
  \<^item> the owner adds a constructed record that it has not added before;
  \<^item> any thread marks a live record that is not yet marked, the registry surviving
    the decrement;
  \<^item> the owner collects;
  \<^item> another holder takes a reference;
  \<^item> a handle updates its record's state, line or waiter.
\<close>

inductive reachable :: "addr \<Rightarrow> thread_id \<Rightarrow> world \<Rightarrow> addr list \<Rightarrow> addr list \<Rightarrow> bool"
  for this :: addr and owner :: thread_id where
  reach_make:
    "destroyed w0 = [] \<Longrightarrow> reachable this owner (make this owner w0) [] []"
| reach_new:
    "reachable this owner w xs fs \<Longrightarrow> promises w a = None \<Longrightarrow>
     reachable this owner (w\<lparr>promises := (promises w)(a \<mapsto> p)\<rparr>) xs fs"
| reach_add:
    "reachable this owner w xs fs \<Longrightarrow> promises w a = Some p \<Longrightarrow> previous p = None \<Longrightarrow>
     a \<notin> set xs \<Longrightarrow> a \<notin> set (destroyed w) \<Longrightarrow> add this owner w a = Inr w' \<Longrightarrow>
     reachable this owner w' (a # xs) fs"
| reach_mark:
    "reachable this owner w xs fs \<Longrightarrow> a \<in> set xs \<Longrightarrow> a \<notin> set fs \<Longrightarrow>
     mark_for_deletion this tid fl w a = Some (Inr w') \<Longrightarrow> registries w' this \<noteq> None \<Longrightarrow>
     reachable this owner w' xs (a # fs)"
| reach_collect:
    "reachable this owner w xs fs \<Longrightarrow> garbage_collect this owner w = Some (Inr w') \<Longrightarrow>
     reachable this owner w' (filter (\<lambda>a. a \<notin> set fs) xs) []"
| reach_increment:
    "reachable this owner w xs fs \<Longrightarrow> increment_ref_count this w = Inr w' \<Longrightarrow>
     reachable this owner w' xs fs"
| reach_update_state:
    "reachable this owner w xs fs \<Longrightarrow> update_state hdl st w = Inr w' \<Longrightarrow>
     reachable this owner w' xs fs"
| reach_update_source_location:
    "reachable this owner w xs fs \<Longrightarrow> update_source_location hdl loc w = Inr w' \<Longrightarrow>
     reachable this owner w' xs fs"
| reach_set_waiter_async:
    "reachable this owner w xs fs \<Longrightarrow> set_promise_waiter_async hdl wa w = Inr w' \<Longrightarrow>
     reachable this owner w' xs fs"
| reach_set_waiter_sync:
    "reachable this owner w xs fs \<Longrightarrow> set_promise_waiter_sync hdl wt w = Inr w' \<Longrightarrow>
     reachable this owner w' xs fs"

section \<open>Example states\<close>

text \<open>
  A freshly constructed record (the default member initialisers of \<open>Promise\<close>), and a
  store holding three of them and no registry.
\<close>

definition example_promise :: Promise where
  "example_promise =
     \<lparr>thread = \<lparr>thread_name = ''worker'', thread_ident = 7\<rparr>,
      source_location = \<lparr>file_name = ''query.cpp'', function_name = ''run'', line = 10\<rparr>,
      waiter = NoWaiter, state = Running, registry = None,
      next' = None, previous = None, next_to_free = None\<rparr>"

definition example_world :: world where
  "example_world =
     \<lparr>promises = [1 \<mapsto> example_promise, 2 \<mapsto> example_promise, 3 \<mapsto> example_promise],
      registries = Map.empty, destroyed = []\<rparr>"

text \<open>
  The registry at address 0, made by thread 7 in \<open>example_world\<close>, after \<open>add\<close> of
  record 1; of records 1 and 2; of records 1, 2 and 3; and after thread 9 then marked
  record 2.
\<close>

definition world_one :: world where
  "world_one =
     \<lparr>promises = [1 \<mapsto> example_promise\<lparr>registry := Some 0\<rparr>,
                  2 \<mapsto> example_promise, 3 \<mapsto> example_promise],
      registries = [0 \<mapsto> \<lparr>owning_thread = 7, free_head = None, promise_head = Some 1,
                           ref_count = 1\<rparr>],
      destroyed = []\<rparr>"

definition world_two :: world where
  "world_two =
     \<lparr>promises = [1 \<mapsto> example_promise\<lparr>registry := Some 0, previous := Some 2\<rparr>,
                  2 \<mapsto> example_promise\<lparr>registry := Some 0, next' := Some 1\<rparr>,
                  3 \<mapsto> example_promise],
      registries = [0 \<mapsto> \<lparr>owning_thread = 7, free_head = None, promise_head = Some 2,
                           ref_count = 2\<rparr>],
      destroyed = []\<rparr>"

definition world_added :: world where
  "world_added =
     \<lparr>promises = [1 \<mapsto> example_promise\<lparr>registry := Some 0, previous := Some 2\<rparr>,
                  2 \<mapsto> example_promise\<lparr>registry := Some 0, next' := Some 1, previous := Some 3\<rparr>,
                  3 \<mapsto> example_promise\<lparr>registry := Some 0, next' := Some 2\<rparr>],
      registries = [0 \<mapsto> \<lparr>owning_thread = 7, free_head = None, promise_head = Some 3,
                           ref_count = 3\<rparr>],
      destroyed = []\<rparr>"

definition world_marked :: world where
  "world_marked =
     world_added\<lparr>registries := [0 \<mapsto> \<lparr>owning_thread = 7, free_head = Some 2,
                                         promise_head = Some 3, ref_count = 2\<rparr>]\<rparr>"

text \<open>
  \<open>world_added\<close> with record 2 in state \<open>Resolved\<close>; a registry whose only record is
  marked and whose last reference is the one about to be dropped; and a handle
  attached to record 2.
\<close>

definition world_resolved :: world where
  "world_resolved =
     world_added\<lparr>promises := (promises world_added)(2 \<mapsto>
        example_promise\<lparr>state := Resolved, registry := Some 0, next' := Some 1,
                          previous := Some 3\<rparr>)\<rparr>"

definition world_last :: world where
  "world_last =
     \<lparr>promises = [1 \<mapsto> example_promise\<lparr>registry := Some 0\<rparr>],
      registries = [0 \<mapsto> \<lparr>owning_thread = 7, free_head = Some 1, promise_head = Some 1,
                           ref_count = 1\<rparr>],
      destroyed = []\<rparr>"

definition example_handle :: AddToAsyncRegistry where
  "example_handle = \<lparr>promise_in_registry = Some 2\<rparr>"

lemmas example_defs = example_world_def example_promise_def world_one_def world_two_def
  world_added_def world_marked_def

lemmas example_defs2 = example_defs world_resolved_def world_last_def example_handle_def

section \<open>Simple facts about the loops\<close>

lemma for_promise_loop_None: "for_promise_loop f h None = Some (Inr [])"
  by (simp add: for_promise_loop.simps)

lemma garbage_collect_loop_None: "garbage_collect_loop this None w = Some (Inr w)"
  by (simp add: garbage_collect_loop.simps)

section \<open>Successor and predecessor in a list\<close>

lemma hdo_eq_None [simp]: "hdo xs = None \<longleftrightarrow> xs = []"
  by (cases xs) auto

lemma hdo_mem: "hdo xs = Some x \<Longrightarrow> x \<in> set xs"
  by (cases xs) auto

lemma succ_in_mem: "succ_in xs a = Some b \<Longrightarrow> a \<in> set xs \<and> b \<in> set xs"
  by (induction xs a rule: succ_in.induct) (auto split: if_splits)

lemma pred_in_mem: "pred_in xs a = Some b \<Longrightarrow> a \<in> set xs \<and> b \<in> set xs"
  by (induction xs a rule: pred_in.induct) (auto split: if_splits)

lemma pred_in_notin: "a \<notin> set xs \<Longrightarrow> pred_in xs a = None"
  using pred_in_mem [of xs a] by (cases "pred_in xs a") auto

lemma succ_in_Cons:
  "succ_in (x # xs) a = (if a = x then hdo xs else succ_in xs a)" if "x \<notin> set xs"
proof (cases xs)
  case Nil
  then show ?thesis by simp
next
  case (Cons y ys)
  then show ?thesis by simp
qed

lemma pred_in_Cons:
  "pred_in (x # xs) a = (if hdo xs = Some a then Some x else pred_in xs a)"
  by (cases xs) auto

lemma pred_in_hd: "x \<notin> set xs \<Longrightarrow> pred_in (x # xs) x = None"
  by (auto simp: pred_in_Cons pred_in_notin dest: hdo_mem)

lemma pred_in_of_hdo: "distinct xs \<Longrightarrow> hdo xs = Some b \<Longrightarrow> pred_in xs b = None"
  by (cases xs) (auto simp: pred_in_hd)

lemma succ_pred: "distinct xs \<Longrightarrow> succ_in xs a = Some b \<longleftrightarrow> pred_in xs b = Some a"
proof (induction xs)
  case Nil
  then show ?case by simp
next
  case (Cons x xs)
  then have IH: "succ_in xs a = Some b \<longleftrightarrow> pred_in xs b = Some a" and x: "x \<notin> set xs"
    and d: "distinct xs"
    by auto
  show ?case
  proof (cases "hdo xs = Some b")
    case True
    with d have "pred_in xs b = None" by (rule pred_in_of_hdo)
    with IH True x show ?thesis by (auto simp: succ_in_Cons pred_in_Cons)
  next
    case False
    with IH x show ?thesis by (auto simp: succ_in_Cons pred_in_Cons dest: pred_in_mem)
  qed
qed

lemma pred_in_None_iff:
  "distinct xs \<Longrightarrow> x \<in> set xs \<Longrightarrow> pred_in xs x = None \<longleftrightarrow> hdo xs = Some x"
proof (induction xs)
  case Nil
  then show ?case by simp
next
  case (Cons y xs)
  show ?case
  proof (cases "x = y")
    case True
    with Cons.prems show ?thesis by (simp add: pred_in_hd)
  next
    case False
    with Cons have "pred_in xs x = None \<longleftrightarrow> hdo xs = Some x" by simp
    with False show ?thesis by (auto simp: pred_in_Cons)
  qed
qed

lemma hdo_remove1:
  "distinct xs \<Longrightarrow> hdo (remove1 x xs) = (if hdo xs = Some x then succ_in xs x else hdo xs)"
  by (cases xs) (auto simp: succ_in_Cons)

lemma succ_in_remove1:
  "distinct xs \<Longrightarrow> a \<noteq> x \<Longrightarrow>
   succ_in (remove1 x xs) a = (if succ_in xs a = Some x then succ_in xs x else succ_in xs a)"
proof (induction xs)
  case Nil
  then show ?case by simp
next
  case (Cons y xs)
  then have IH: "succ_in (remove1 x xs) a =
      (if succ_in xs a = Some x then succ_in xs x else succ_in xs a)"
    and y: "y \<notin> set xs" and d: "distinct xs" by auto
  show ?case
  proof (cases "x = y")
    case True
    with y \<open>a \<noteq> x\<close> show ?thesis
      by (auto simp: succ_in_Cons remove1_idem dest: succ_in_mem)
  next
    case False
    from y have y': "y \<notin> set (remove1 x xs)" by (auto dest: notin_set_remove1)
    from False y y' IH d \<open>a \<noteq> x\<close> show ?thesis
      by (auto simp: succ_in_Cons hdo_remove1)
  qed
qed

lemma pred_in_remove1:
  "distinct xs \<Longrightarrow> a \<noteq> x \<Longrightarrow>
   pred_in (remove1 x xs) a = (if pred_in xs a = Some x then pred_in xs x else pred_in xs a)"
proof (induction xs)
  case Nil
  then show ?case by simp
next
  case (Cons y xs)
  then have IH: "pred_in (remove1 x xs) a =
      (if pred_in xs a = Some x then pred_in xs x else pred_in xs a)"
    and y: "y \<notin> set xs" and d: "distinct xs" by auto
  show ?case
  proof (cases "x = y")
    case True
    with y d \<open>a \<noteq> x\<close> show ?thesis
      by (auto simp: pred_in_Cons pred_in_hd pred_in_of_hdo pred_in_notin dest: pred_in_mem)
  next
    case False
    note xy = this
    show ?thesis
    proof (cases "hdo xs = Some x")
      case True
      then have px: "pred_in xs x = None" using d by (simp add: pred_in_of_hdo)
      have "pred_in xs a = Some x \<longleftrightarrow> succ_in xs x = Some a"
        using succ_pred [OF d, of x a] by simp
      with True px xy IH d \<open>a \<noteq> x\<close> show ?thesis
        by (auto simp: pred_in_Cons hdo_remove1)
    next
      case False
      with xy IH d \<open>a \<noteq> x\<close> show ?thesis
        by (auto simp: pred_in_Cons hdo_remove1)
    qed
  qed
qed

section \<open>Stores that differ in the links only\<close>

lemma only_links_changed_refl: "only_links_changed h h"
  by (simp add: only_links_changed_def)

lemma only_links_changed_trans:
  "only_links_changed h1 h2 \<Longrightarrow> only_links_changed h2 h3 \<Longrightarrow> only_links_changed h1 h3"
  by (simp add: only_links_changed_def)

lemma unlinked_simps [simp]:
  "unlinked (p\<lparr>next' := n\<rparr>) = unlinked p"
  "unlinked (p\<lparr>previous := q\<rparr>) = unlinked p"
  by (simp_all add: unlinked_def)

lemma only_links_changed_upd_next:
  "h a = Some p \<Longrightarrow> only_links_changed h (h(a \<mapsto> p\<lparr>next' := n\<rparr>))"
  by (simp add: only_links_changed_def)

lemma only_links_changed_upd_previous:
  "h a = Some p \<Longrightarrow> only_links_changed h (h(a \<mapsto> p\<lparr>previous := n\<rparr>))"
  by (simp add: only_links_changed_def)

lemma only_links_changedD:
  assumes "only_links_changed h h'" and "h a = Some p"
  shows "\<exists>p'. h' a = Some p' \<and> unlinked p' = unlinked p"
proof -
  from assms have "map_option unlinked (h' a) = Some (unlinked p)"
    by (simp add: only_links_changed_def)
  then show ?thesis by auto
qed

section \<open>Unlinking a record from a well-formed live list\<close>

lemma remove_live:
  assumes r: "registries w this = Some r" and hd: "promise_head r = hdo xs"
    and live: "live_list (promises w) xs" and x: "x \<in> set xs"
  shows "\<exists>w1. remove this w x = Inr w1 \<and>
           registries w1 = (registries w)(this \<mapsto> r\<lparr>promise_head := hdo (remove1 x xs)\<rparr>) \<and>
           destroyed w1 = destroyed w \<and>
           only_links_changed (promises w) (promises w1) \<and>
           live_list (promises w1) (remove1 x xs)"
proof -
  from live have d: "distinct xs"
    and pt: "\<And>a. a \<in> set xs \<Longrightarrow>
       \<exists>p. promises w a = Some p \<and> next' p = succ_in xs a \<and> previous p = pred_in xs a"
    by (auto simp: live_list_def)
  from pt [OF x] obtain p where px: "promises w x = Some p"
    and nx: "next' p = succ_in xs x" and pv: "previous p = pred_in xs x" by auto
  define xs' where "xs' = remove1 x xs"
  have d': "distinct xs'" using d by (simp add: xs'_def)

  text \<open>first store\<close>
  have "\<exists>w0. (case previous p of
                None \<Rightarrow> (case registries w this of None \<Rightarrow> Inl InvalidPointer
                   | Some r \<Rightarrow> Inr (w\<lparr>registries := (registries w)(this \<mapsto> r\<lparr>promise_head := next' p\<rparr>)\<rparr>))
              | Some q \<Rightarrow> (case promises w q of None \<Rightarrow> Inl InvalidPointer
                   | Some pq \<Rightarrow> Inr (w\<lparr>promises := (promises w)(q \<mapsto> pq\<lparr>next' := next' p\<rparr>)\<rparr>))) = Inr w0 \<and>
          registries w0 = (registries w)(this \<mapsto> r\<lparr>promise_head := hdo xs'\<rparr>) \<and>
          destroyed w0 = destroyed w \<and>
          only_links_changed (promises w) (promises w0) \<and>
          (\<forall>a\<in>set xs. \<exists>p0. promises w0 a = Some p0 \<and>
              next' p0 = (if pred_in xs x = Some a then succ_in xs x else succ_in xs a) \<and>
              previous p0 = pred_in xs a)"
  proof (cases "pred_in xs x")
    case None
    then have "hdo xs = Some x" using d x by (simp add: pred_in_None_iff)
    then have "hdo xs' = succ_in xs x" using d by (simp add: xs'_def hdo_remove1)
    with None r pv nx pt show ?thesis
      by (simp add: only_links_changed_refl)
  next
    case (Some q)
    then have q: "q \<in> set xs" by (auto dest: pred_in_mem)
    from pt [OF q] obtain pq where pq: "promises w q = Some pq"
      and "next' pq = succ_in xs q" and pvq: "previous pq = pred_in xs q" by auto
    from Some have "hdo xs \<noteq> Some x" using d x by (simp flip: pred_in_None_iff)
    then have "hdo xs' = promise_head r" using d hd by (simp add: xs'_def hdo_remove1)
    then have reg: "(registries w)(this \<mapsto> r\<lparr>promise_head := hdo xs'\<rparr>) = registries w"
      using r by (auto simp: fun_eq_iff)
    show ?thesis using Some pv pq nx pvq reg pt
      by (auto simp: only_links_changed_upd_next)
  qed
  then obtain w0 where step1: "(case previous p of
                None \<Rightarrow> (case registries w this of None \<Rightarrow> Inl InvalidPointer
                   | Some r \<Rightarrow> Inr (w\<lparr>registries := (registries w)(this \<mapsto> r\<lparr>promise_head := next' p\<rparr>)\<rparr>))
              | Some q \<Rightarrow> (case promises w q of None \<Rightarrow> Inl InvalidPointer
                   | Some pq \<Rightarrow> Inr (w\<lparr>promises := (promises w)(q \<mapsto> pq\<lparr>next' := next' p\<rparr>)\<rparr>))) = Inr w0"
    and reg0: "registries w0 = (registries w)(this \<mapsto> r\<lparr>promise_head := hdo xs'\<rparr>)"
    and des0: "destroyed w0 = destroyed w"
    and olc0: "only_links_changed (promises w) (promises w0)"
    and pt0: "\<And>a. a \<in> set xs \<Longrightarrow> \<exists>p0. promises w0 a = Some p0 \<and>
              next' p0 = (if pred_in xs x = Some a then succ_in xs x else succ_in xs a) \<and>
              previous p0 = pred_in xs a"
    by blast

  text \<open>second store\<close>
  have "\<exists>w1. (case next' p of None \<Rightarrow> Inr w0
               | Some n \<Rightarrow> (case promises w0 n of None \<Rightarrow> Inl InvalidPointer
                   | Some pn \<Rightarrow> Inr (w0\<lparr>promises := (promises w0)(n \<mapsto> pn\<lparr>previous := previous p\<rparr>)\<rparr>))) = Inr w1 \<and>
          registries w1 = registries w0 \<and> destroyed w1 = destroyed w0 \<and>
          only_links_changed (promises w0) (promises w1) \<and>
          (\<forall>a\<in>set xs. \<exists>p1. promises w1 a = Some p1 \<and>
              next' p1 = (if pred_in xs x = Some a then succ_in xs x else succ_in xs a) \<and>
              previous p1 = (if succ_in xs x = Some a then pred_in xs x else pred_in xs a))"
  proof (cases "succ_in xs x")
    case None
    with nx pt0 show ?thesis by (simp add: only_links_changed_refl)
  next
    case (Some n)
    then have n: "n \<in> set xs" by (auto dest: succ_in_mem)
    from pt0 [OF n] obtain pn where pn: "promises w0 n = Some pn"
      and "next' pn = (if pred_in xs x = Some n then succ_in xs x else succ_in xs n)"
      and "previous pn = pred_in xs n" by auto
    then show ?thesis using Some nx pv pt0
      by (auto simp: only_links_changed_upd_previous)
  qed
  then obtain w1 where step2: "(case next' p of None \<Rightarrow> Inr w0
               | Some n \<Rightarrow> (case promises w0 n of None \<Rightarrow> Inl InvalidPointer
                   | Some pn \<Rightarrow> Inr (w0\<lparr>promises := (promises w0)(n \<mapsto> pn\<lparr>previous := previous p\<rparr>)\<rparr>))) = Inr w1"
    and reg1: "registries w1 = registries w0" and des1: "destroyed w1 = destroyed w0"
    and olc1: "only_links_changed (promises w0) (promises w1)"
    and pt1: "\<And>a. a \<in> set xs \<Longrightarrow> \<exists>p1. promises w1 a = Some p1 \<and>
              next' p1 = (if pred_in xs x = Some a then succ_in xs x else succ_in xs a) \<and>
              previous p1 = (if succ_in xs x = Some a then pred_in xs x else pred_in xs a)"
    by blast
  have rem: "remove this w x = Inr w1"
    using px step1 step2 by (simp add: remove_def Let_def)
  have "live_list (promises w1) xs'"
    unfolding live_list_def
  proof (intro conjI ballI)
    show "distinct xs'" by (rule d')
  next
    fix a assume "a \<in> set xs'"
    then have a: "a \<in> set xs" and ax: "a \<noteq> x" using d by (auto simp: xs'_def)
    from pt1 [OF a] obtain p1 where p1: "promises w1 a = Some p1"
      and n1: "next' p1 = (if pred_in xs x = Some a then succ_in xs x else succ_in xs a)"
      and v1: "previous p1 = (if succ_in xs x = Some a then pred_in xs x else pred_in xs a)"
      by auto
    have "next' p1 = succ_in xs' a"
      using n1 succ_pred [OF d, of a x] by (simp add: xs'_def succ_in_remove1 [OF d ax])
    moreover have "previous p1 = pred_in xs' a"
      using v1 succ_pred [OF d, of x a] by (simp add: xs'_def pred_in_remove1 [OF d ax])
    ultimately show "\<exists>p. promises w1 a = Some p \<and> next' p = succ_in xs' a \<and> previous p = pred_in xs' a"
      using p1 by simp
  qed
  with rem reg0 reg1 des0 des1 olc0 olc1 show ?thesis
    by (auto simp: xs'_def intro: only_links_changed_trans)
qed

section \<open>The exchange loop of marking\<close>

lemma mark_loop_result:
  assumes "promises w a = Some p" and "registries w this = Some r"
    and "free_head r = ch"
  shows "mark_loop fl this a ch w =
           Inr (w\<lparr>promises := (promises w)(a \<mapsto> p\<lparr>next_to_free := ch\<rparr>),
                  registries := (registries w)(this \<mapsto> r\<lparr>free_head := Some a\<rparr>)\<rparr>)"
  using assms
proof (induction fl arbitrary: w p r)
  case Nil
  show ?case
    by (subst mark_loop.simps)
      (use Nil in \<open>simp add: compare_exchange_weak_def del: mark_loop.simps\<close>)
next
  case (Cons b fl)
  show ?case
  proof (cases b)
    case False
    show ?thesis
      by (subst mark_loop.simps)
        (use False Cons.prems in \<open>simp add: compare_exchange_weak_def del: mark_loop.simps\<close>)
  next
    case True
    let ?w1 = "w\<lparr>promises := (promises w)(a \<mapsto> p\<lparr>next_to_free := ch\<rparr>),
                  registries := (registries w)(this \<mapsto> r\<lparr>free_head := free_head r\<rparr>)\<rparr>"
    have step: "mark_loop (b # fl) this a ch w = mark_loop fl this a ch ?w1"
      by (subst mark_loop.simps)
        (use True Cons.prems in \<open>simp add: compare_exchange_weak_def del: mark_loop.simps\<close>)
    have rec: "mark_loop fl this a ch ?w1 =
           Inr (?w1\<lparr>promises := (promises ?w1)(a \<mapsto> p\<lparr>next_to_free := ch\<rparr>\<lparr>next_to_free := ch\<rparr>),
                  registries := (registries ?w1)(this \<mapsto> r\<lparr>free_head := free_head r\<rparr>\<lparr>free_head := Some a\<rparr>)\<rparr>)"
      by (rule Cons.IH) (use Cons.prems in simp_all)
    have same: "?w1\<lparr>promises := (promises ?w1)(a \<mapsto> p\<lparr>next_to_free := ch\<rparr>\<lparr>next_to_free := ch\<rparr>),
                  registries := (registries ?w1)(this \<mapsto> r\<lparr>free_head := free_head r\<rparr>\<lparr>free_head := Some a\<rparr>)\<rparr> =
          w\<lparr>promises := (promises w)(a \<mapsto> p\<lparr>next_to_free := ch\<rparr>),
                  registries := (registries w)(this \<mapsto> r\<lparr>free_head := Some a\<rparr>)\<rparr>"
      by (auto intro!: world.equality simp: fun_eq_iff)
    show ?thesis by (simp only: step rec same)
  qed
qed

section \<open>The loop step after destroy\<close>

lemma remove_error: "remove this w c = Inl e \<Longrightarrow> e = InvalidPointer"
  by (auto simp: remove_def Let_def split: option.splits sum.splits)

lemma destroy_error: "destroy c w = Inl e \<Longrightarrow> e = InvalidPointer"
  by (auto simp: destroy_def split: option.splits)

lemma destroy_result:
  "destroy c w = Inr w' \<Longrightarrow> promises w' c = None \<and> destroyed w' = destroyed w @ [c]"
  by (auto simp: destroy_def split: option.splits)

text \<open>
  Whatever the store, an iteration of the loop does not reach the next one: if
  \<open>remove\<close> and \<open>destroy\<close> succeed, the record is gone when its \<open>next_to_free\<close> is read.
\<close>

lemma garbage_collect_loop_Some:
  "garbage_collect_loop this (Some c) w = Some (Inl InvalidPointer)"
proof (cases "remove this w c")
  case (Inl e)
  then have "e = InvalidPointer" by (rule remove_error)
  with Inl show ?thesis by (subst garbage_collect_loop.simps) simp
next
  case rm: (Inr w1)
  show ?thesis
  proof (cases "destroy c w1")
    case (Inl e)
    then have "e = InvalidPointer" by (rule destroy_error)
    with rm Inl show ?thesis by (subst garbage_collect_loop.simps) simp
  next
    case (Inr w2)
    then have "promises w2 c = None" by (simp add: destroy_result)
    with rm Inr show ?thesis by (subst garbage_collect_loop.simps) simp
  qed
qed

lemma registry_free_head_None: "free_head r = None \<Longrightarrow> r\<lparr>free_head := None\<rparr> = r"
  by (cases r) simp

lemma garbage_collect_result:
  assumes r: "registries w this = Some r" and ok: "ref_count r = 0 \<or> tid = owning_thread r"
  shows "garbage_collect this tid w =
           (if free_head r = None then Some (Inr w) else Some (Inl InvalidPointer))"
proof (cases "free_head r")
  case None
  then have "w\<lparr>registries := (registries w)(this \<mapsto> r\<lparr>free_head := None\<rparr>)\<rparr> = w"
    using r by (simp add: registry_free_head_None map_upd_triv)
  with None r ok show ?thesis
    by (auto simp: garbage_collect_def garbage_collect_loop_None)
next
  case (Some c)
  with r ok show ?thesis
    by (auto simp: garbage_collect_def garbage_collect_loop_Some)
qed

section \<open>Traversal of a well-formed live list\<close>

lemma succ_in_append:
  "distinct (ys @ z # zs) \<Longrightarrow> succ_in (ys @ z # zs) z = hdo zs"
proof (induction ys)
  case Nil
  then show ?case by (simp add: succ_in_Cons)
next
  case (Cons y ys)
  then have "y \<notin> set (ys @ z # zs)" and "z \<noteq> y" by auto
  then have "succ_in (y # (ys @ z # zs)) z = succ_in (ys @ z # zs) z"
    using succ_in_Cons [of y "ys @ z # zs" z] by simp
  with Cons show ?case by simp
qed

lemma for_promise_loop_suffix:
  assumes "distinct (ys @ zs)"
    and "\<forall>a\<in>set zs. \<exists>p. h a = Some p \<and> next' p = succ_in (ys @ zs) a"
  shows "for_promise_loop f h (hdo zs) = Some (Inr (map f zs))"
  using assms
proof (induction zs arbitrary: ys)
  case Nil
  then show ?case by (simp add: for_promise_loop_None)
next
  case (Cons z zs)
  from Cons.prems obtain p where p: "h z = Some p" and n: "next' p = succ_in (ys @ z # zs) z"
    by auto
  from Cons.prems(1) have nz: "next' p = hdo zs" unfolding n by (rule succ_in_append)
  have "for_promise_loop f h (hdo zs) = Some (Inr (map f zs))"
    using Cons.IH [of "ys @ [z]"] Cons.prems by simp
  then show ?case
    using p nz by (subst for_promise_loop.simps) simp
qed

lemma for_promise_live:
  assumes "registries w this = Some r" and "promise_head r = hdo xs"
    and "live_list (promises w) xs"
  shows "for_promise this f w = Some (Inr (map f xs))"
proof -
  from assms(3) have "distinct ([] @ xs)"
    and "\<forall>a\<in>set xs. \<exists>p. promises w a = Some p \<and> next' p = succ_in ([] @ xs) a"
    by (auto simp: live_list_def)
  then have "for_promise_loop f (promises w) (hdo xs) = Some (Inr (map f xs))"
    by (rule for_promise_loop_suffix)
  with assms(1,2) show ?thesis by (simp add: for_promise_def)
qed

section \<open>The registry invariant\<close>

lemma registry_invI:
  assumes "registries w this = Some r" and "owning_thread r = owner"
    and "promise_head r = hdo xs" and "free_head r = hdo fs"
    and "live_list (promises w) xs" and "free_list (promises w) fs" and "set fs \<subseteq> set xs"
    and "\<forall>a\<in>set xs. \<exists>p. promises w a = Some p \<and> registry p = Some this"
    and "distinct (destroyed w)" and "set (destroyed w) \<inter> set xs = {}"
  shows "registry_inv this owner w xs fs"
  using assms unfolding registry_inv_def by blast

lemma registry_inv_make:
  "destroyed w0 = [] \<Longrightarrow> registry_inv this owner (make this owner w0) [] []"
  by (simp add: registry_inv_def make_def live_list_def free_list_def)

text \<open>A change of the store that keeps every record's list fields keeps the invariant.\<close>

lemma registry_inv_same_links:
  assumes inv: "registry_inv this owner w xs fs"
    and "registries w' = registries w" and "destroyed w' = destroyed w"
    and keep: "\<And>a p. promises w a = Some p \<Longrightarrow>
       \<exists>p'. promises w' a = Some p' \<and> registry p' = registry p \<and> next' p' = next' p \<and>
            previous p' = previous p \<and> next_to_free p' = next_to_free p"
  shows "registry_inv this owner w' xs fs"
proof -
  from inv obtain r where r: "registries w this = Some r" "owning_thread r = owner"
    "promise_head r = hdo xs" "free_head r = hdo fs"
    and live: "live_list (promises w) xs" and free: "free_list (promises w) fs"
    and sub: "set fs \<subseteq> set xs"
    and reg: "\<forall>a\<in>set xs. \<exists>p. promises w a = Some p \<and> registry p = Some this"
    and des: "distinct (destroyed w)" "set (destroyed w) \<inter> set xs = {}"
    unfolding registry_inv_def by blast
  have live': "live_list (promises w') xs"
    unfolding live_list_def
  proof (intro conjI ballI)
    show "distinct xs" using live by (simp add: live_list_def)
  next
    fix a assume "a \<in> set xs"
    with live obtain p where p: "promises w a = Some p" "next' p = succ_in xs a"
      "previous p = pred_in xs a" by (auto simp: live_list_def)
    from keep [OF p(1)] p(2,3)
    show "\<exists>p. promises w' a = Some p \<and> next' p = succ_in xs a \<and> previous p = pred_in xs a"
      by auto
  qed
  have free': "free_list (promises w') fs"
    unfolding free_list_def
  proof (intro conjI ballI)
    show "distinct fs" using free by (simp add: free_list_def)
  next
    fix a assume "a \<in> set fs"
    with free obtain p where p: "promises w a = Some p" "next_to_free p = succ_in fs a"
      by (auto simp: free_list_def)
    from keep [OF p(1)] p(2)
    show "\<exists>p. promises w' a = Some p \<and> next_to_free p = succ_in fs a" by auto
  qed
  have reg': "\<exists>p. promises w' a = Some p \<and> registry p = Some this" if "a \<in> set xs" for a
  proof -
    from reg that obtain p where p: "promises w a = Some p" "registry p = Some this" by auto
    from keep [OF p(1)] p(2) show ?thesis by auto
  qed
  show ?thesis
    by (rule registry_invI [where r = r]) (use r live' free' sub reg' des assms(2,3) in auto)
qed

lemma add_inv:
  assumes inv: "registry_inv this owner w xs fs" and r: "registries w this = Some r"
    and p: "promises w a = Some p" and pv: "previous p = None"
    and ax: "a \<notin> set xs" and ad: "a \<notin> set (destroyed w)"
  shows "\<exists>w'. add this owner w a = Inr w' \<and> registry_inv this owner w' (a # xs) fs \<and>
           registries w' =
             (registries w)(this \<mapsto> r\<lparr>promise_head := Some a, ref_count := ref_count r + 1\<rparr>) \<and>
           destroyed w' = destroyed w \<and>
           (\<forall>b. b \<notin> set (a # xs) \<longrightarrow> promises w' b = promises w b)"
proof -
  from inv r have own: "owning_thread r = owner"
    and hd: "promise_head r = hdo xs" and fh: "free_head r = hdo fs"
    and live: "live_list (promises w) xs" and free: "free_list (promises w) fs"
    and sub: "set fs \<subseteq> set xs"
    and reg: "\<forall>a\<in>set xs. \<exists>p. promises w a = Some p \<and> registry p = Some this"
    and des: "distinct (destroyed w)" "set (destroyed w) \<inter> set xs = {}"
    unfolding registry_inv_def by auto
  from live have dx: "distinct xs"
    and lp: "\<forall>b\<in>set xs. \<exists>q. promises w b = Some q \<and> next' q = succ_in xs b \<and> previous q = pred_in xs b"
    by (auto simp: live_list_def)
  from free have df: "distinct fs"
    and fp: "\<forall>b\<in>set fs. \<exists>q. promises w b = Some q \<and> next_to_free q = succ_in fs b"
    by (auto simp: free_list_def)
  define pa where "pa = p\<lparr>registry := Some this, next' := hdo xs\<rparr>"
  define h2 where "h2 = (case xs of [] \<Rightarrow> (promises w)(a \<mapsto> pa)
      | c # cs \<Rightarrow> (promises w)(a \<mapsto> pa, c \<mapsto> (the (promises w c))\<lparr>previous := Some a\<rparr>))"
  define w' where "w' = w\<lparr>promises := h2,
      registries := (registries w)(this \<mapsto> r\<lparr>promise_head := Some a, ref_count := ref_count r + 1\<rparr>)\<rparr>"
  have run: "add this owner w a = Inr w'"
  proof (cases xs)
    case Nil
    with r own p hd show ?thesis
      by (simp add: add_def increment_ref_count_def w'_def h2_def pa_def)
  next
    case (Cons c cs)
    with lp obtain q where "promises w c = Some q" by auto
    moreover from Cons ax have "c \<noteq> a" by auto
    ultimately show ?thesis using Cons r own p hd
      by (simp add: add_def increment_ref_count_def w'_def h2_def pa_def)
  qed
  have h2a: "h2 a = Some pa"
    using ax by (cases xs) (auto simp: h2_def)
  have h2x: "\<exists>q'. h2 b = Some q' \<and> q' = q\<lparr>previous := pred_in (a # xs) b\<rparr>"
    if "b \<in> set xs" and "promises w b = Some q" and "previous q = pred_in xs b" for b q
  proof (cases xs)
    case Nil
    with that show ?thesis by simp
  next
    case (Cons c cs)
    with that ax dx show ?thesis
      by (cases "b = c") (auto simp: h2_def pred_in_Cons)
  qed
  have h2o: "h2 b = promises w b" if "b \<notin> set (a # xs)" for b
    using that by (cases xs) (auto simp: h2_def)
  have live': "live_list h2 (a # xs)"
    unfolding live_list_def
  proof (intro conjI ballI)
    show "distinct (a # xs)" using ax dx by simp
  next
    fix b assume b: "b \<in> set (a # xs)"
    show "\<exists>p. h2 b = Some p \<and> next' p = succ_in (a # xs) b \<and> previous p = pred_in (a # xs) b"
    proof (cases "b = a")
      case True
      with h2a pv ax show ?thesis by (simp add: pa_def succ_in_Cons pred_in_hd)
    next
      case False
      with b have bx: "b \<in> set xs" by simp
      with lp obtain q where q: "promises w b = Some q" "next' q = succ_in xs b"
        "previous q = pred_in xs b" by auto
      from h2x [OF bx q(1,3)] q(2) False ax show ?thesis by (auto simp: succ_in_Cons)
    qed
  qed
  have free': "free_list h2 fs"
    unfolding free_list_def
  proof (intro conjI ballI)
    show "distinct fs" by (rule df)
  next
    fix b assume b: "b \<in> set fs"
    with sub have bx: "b \<in> set xs" by auto
    from fp b obtain q where q: "promises w b = Some q" "next_to_free q = succ_in fs b" by auto
    from lp bx q(1) have "previous q = pred_in xs b" by auto
    from h2x [OF bx q(1) this] q(2)
    show "\<exists>p. h2 b = Some p \<and> next_to_free p = succ_in fs b" by auto
  qed
  have reg': "\<forall>b\<in>set (a # xs). \<exists>p. h2 b = Some p \<and> registry p = Some this"
  proof
    fix b assume b: "b \<in> set (a # xs)"
    show "\<exists>p. h2 b = Some p \<and> registry p = Some this"
    proof (cases "b = a")
      case True
      with h2a show ?thesis by (simp add: pa_def)
    next
      case False
      with b have bx: "b \<in> set xs" by simp
      with reg obtain q where q: "promises w b = Some q" "registry q = Some this" by auto
      from lp bx q(1) have "previous q = pred_in xs b" by auto
      from h2x [OF bx q(1) this] q(2) show ?thesis by auto
    qed
  qed
  have "registry_inv this owner w' (a # xs) fs"
    by (rule registry_invI [where r = "r\<lparr>promise_head := Some a, ref_count := ref_count r + 1\<rparr>"])
      (use own fh live' free' sub reg' des ad in \<open>auto simp: w'_def\<close>)
  with run h2o show ?thesis by (auto simp: w'_def)
qed

lemma mark_for_deletion_unfold:
  assumes p: "promises w a = Some p" and rg: "registry p = Some this"
    and r: "registries w this = Some r"
  shows "mark_for_deletion this tid fl w a =
           decrement_ref_count this tid
             (w\<lparr>promises := (promises w)(a \<mapsto> p\<lparr>next_to_free := free_head r\<rparr>),
                registries := (registries w)(this \<mapsto> r\<lparr>free_head := Some a\<rparr>)\<rparr>)"
  using assms mark_loop_result [OF p r refl, of fl]
  by (simp add: mark_for_deletion_def del: mark_loop.simps)

lemma decrement_ref_count_keep:
  assumes "registries w this = Some r" and "ref_count r \<noteq> 1"
  shows "decrement_ref_count this tid w =
           Some (Inr (w\<lparr>registries := (registries w)(this \<mapsto> r\<lparr>ref_count := ref_count r - 1\<rparr>)\<rparr>))"
  using assms by (simp add: decrement_ref_count_def)

lemma decrement_ref_count_last:
  assumes "registries w this = Some r" and "ref_count r = 1"
    and "decrement_ref_count this tid w = Some (Inr w')"
  shows "registries w' this = None"
  using assms
  by (auto simp: decrement_ref_count_def delete_this_def split: Option.bind_splits sum.splits)

lemma mark_inv:
  assumes inv: "registry_inv this owner w xs fs" and r: "registries w this = Some r"
    and ax: "a \<in> set xs" and af: "a \<notin> set fs" and rc: "ref_count r \<noteq> 1"
  shows "\<exists>w' p. mark_for_deletion this tid fl w a = Some (Inr w') \<and>
           registry_inv this owner w' xs (a # fs) \<and>
           promises w a = Some p \<and>
           promises w' = (promises w)(a \<mapsto> p\<lparr>next_to_free := hdo fs\<rparr>) \<and>
           registries w' =
             (registries w)(this \<mapsto> r\<lparr>free_head := Some a, ref_count := ref_count r - 1\<rparr>) \<and>
           destroyed w' = destroyed w"
proof -
  from inv r have own: "owning_thread r = owner"
    and hd: "promise_head r = hdo xs" and fh: "free_head r = hdo fs"
    and live: "live_list (promises w) xs" and free: "free_list (promises w) fs"
    and sub: "set fs \<subseteq> set xs"
    and reg: "\<forall>a\<in>set xs. \<exists>p. promises w a = Some p \<and> registry p = Some this"
    and des: "distinct (destroyed w)" "set (destroyed w) \<inter> set xs = {}"
    unfolding registry_inv_def by auto
  from reg ax obtain p where p: "promises w a = Some p" and rg: "registry p = Some this" by auto
  define w1 where "w1 = w\<lparr>promises := (promises w)(a \<mapsto> p\<lparr>next_to_free := free_head r\<rparr>),
                registries := (registries w)(this \<mapsto> r\<lparr>free_head := Some a\<rparr>)\<rparr>"
  define w' where "w' = w\<lparr>promises := (promises w)(a \<mapsto> p\<lparr>next_to_free := hdo fs\<rparr>),
      registries := (registries w)(this \<mapsto> r\<lparr>free_head := Some a, ref_count := ref_count r - 1\<rparr>)\<rparr>"
  have "mark_for_deletion this tid fl w a = decrement_ref_count this tid w1"
    unfolding w1_def by (rule mark_for_deletion_unfold [OF p rg r])
  also have "\<dots> = Some (Inr (w1\<lparr>registries := (registries w1)(this \<mapsto>
        r\<lparr>free_head := Some a\<rparr>\<lparr>ref_count := ref_count (r\<lparr>free_head := Some a\<rparr>) - 1\<rparr>)\<rparr>))"
    by (rule decrement_ref_count_keep) (use rc in \<open>simp_all add: w1_def\<close>)
  also have "w1\<lparr>registries := (registries w1)(this \<mapsto>
        r\<lparr>free_head := Some a\<rparr>\<lparr>ref_count := ref_count (r\<lparr>free_head := Some a\<rparr>) - 1\<rparr>)\<rparr> = w'"
    using fh by (simp add: w1_def w'_def)
  finally have run: "mark_for_deletion this tid fl w a = Some (Inr w')" .
  have live': "live_list (promises w') xs"
    using live p by (auto simp: live_list_def w'_def)
  have free': "free_list (promises w') (a # fs)"
    unfolding free_list_def
  proof (intro conjI ballI)
    show "distinct (a # fs)" using free af by (simp add: free_list_def)
  next
    fix b assume b: "b \<in> set (a # fs)"
    show "\<exists>p. promises w' b = Some p \<and> next_to_free p = succ_in (a # fs) b"
    proof (cases "b = a")
      case True
      then show ?thesis using af by (simp add: w'_def succ_in_Cons)
    next
      case False
      with b free af show ?thesis by (auto simp: free_list_def w'_def succ_in_Cons)
    qed
  qed
  have reg': "\<forall>b\<in>set xs. \<exists>p. promises w' b = Some p \<and> registry p = Some this"
    using reg p rg by (auto simp: w'_def)
  have "registry_inv this owner w' xs (a # fs)"
    by (rule registry_invI [where r = "r\<lparr>free_head := Some a, ref_count := ref_count r - 1\<rparr>"])
      (use own hd live' free' sub ax reg' des in \<open>auto simp: w'_def\<close>)
  with run p show ?thesis by (auto simp: w'_def)
qed

text \<open>
  The first iteration of a collection on a well-formed registry: the head of the free
  list is unlinked from the live list and destroyed, and is then no longer in the
  store.
\<close>

lemma first_collect_step:
  assumes inv: "registry_inv this owner w xs (f # fs)" and r: "registries w this = Some r"
  shows "\<exists>w1 w2. remove this (w\<lparr>registries := (registries w)(this \<mapsto> r\<lparr>free_head := None\<rparr>)\<rparr>) f
                    = Inr w1 \<and>
           live_list (promises w1) (remove1 f xs) \<and>
           destroy f w1 = Inr w2 \<and> promises w2 f = None \<and>
           destroyed w2 = destroyed w @ [f]"
proof -
  let ?w0 = "w\<lparr>registries := (registries w)(this \<mapsto> r\<lparr>free_head := None\<rparr>)\<rparr>"
  from inv r have hd: "promise_head r = hdo xs"
    and live: "live_list (promises w) xs" and fx: "f \<in> set xs"
    unfolding registry_inv_def by auto
  have r0: "registries ?w0 this = Some (r\<lparr>free_head := None\<rparr>)" by simp
  have "\<exists>w1. remove this ?w0 f = Inr w1 \<and>
           registries w1 = (registries ?w0)(this \<mapsto>
             r\<lparr>free_head := None\<rparr>\<lparr>promise_head := hdo (remove1 f xs)\<rparr>) \<and>
           destroyed w1 = destroyed ?w0 \<and>
           only_links_changed (promises ?w0) (promises w1) \<and>
           live_list (promises w1) (remove1 f xs)"
    by (rule remove_live [OF r0]) (use hd live fx in simp_all)
  then obtain w1 where rm: "remove this ?w0 f = Inr w1"
    and des1: "destroyed w1 = destroyed w"
    and olc: "only_links_changed (promises w) (promises w1)"
    and live1: "live_list (promises w1) (remove1 f xs)"
    by auto
  from live fx obtain p where "promises w f = Some p" by (auto simp: live_list_def)
  from only_links_changedD [OF olc this] obtain p1 where p1: "promises w1 f = Some p1"
    by blast
  define w2 where "w2 = w1\<lparr>promises := (promises w1)(f := None),
                            destroyed := destroyed w1 @ [f]\<rparr>"
  have "destroy f w1 = Inr w2" using p1 by (simp add: destroy_def w2_def)
  moreover have "promises w2 f = None" "destroyed w2 = destroyed w @ [f]"
    using des1 by (simp_all add: w2_def)
  ultimately show ?thesis using rm live1 by blast
qed

text \<open>A collection that returns found the free list empty and changed nothing.\<close>

lemma collect_returns:
  assumes inv: "registry_inv this owner w xs fs"
    and run: "garbage_collect this tid w = Some (Inr w')"
  shows "fs = [] \<and> w' = w"
proof -
  from inv obtain r where r: "registries w this = Some r" and fh: "free_head r = hdo fs"
    unfolding registry_inv_def by blast
  from run r have ok: "ref_count r = 0 \<or> tid = owning_thread r"
    by (auto simp: garbage_collect_def split: if_splits)
  from garbage_collect_result [OF r ok] run have "free_head r = None" and "w' = w"
    by (auto split: if_splits)
  with fh show ?thesis by (cases fs) simp_all
qed

lemma registry_inv_registry:
  "registry_inv this owner w xs fs \<Longrightarrow> \<exists>r. registries w this = Some r \<and> owning_thread r = owner"
  unfolding registry_inv_def by blast

lemma registry_inv_increment:
  assumes "registry_inv this owner w xs fs" and "increment_ref_count this w = Inr w'"
  shows "registry_inv this owner w' xs fs"
  using assms unfolding registry_inv_def increment_ref_count_def
  by (auto split: option.splits)

lemma update_state_links:
  assumes "update_state hdl st w = Inr w'"
  shows "registries w' = registries w \<and> destroyed w' = destroyed w \<and>
    (\<forall>a p. promises w a = Some p \<longrightarrow>
       (\<exists>p'. promises w' a = Some p' \<and> registry p' = registry p \<and> next' p' = next' p \<and>
            previous p' = previous p \<and> next_to_free p' = next_to_free p))"
  using assms by (auto simp: update_state_def split: option.splits)

lemma update_source_location_links:
  assumes "update_source_location hdl loc w = Inr w'"
  shows "registries w' = registries w \<and> destroyed w' = destroyed w \<and>
    (\<forall>a p. promises w a = Some p \<longrightarrow>
       (\<exists>p'. promises w' a = Some p' \<and> registry p' = registry p \<and> next' p' = next' p \<and>
            previous p' = previous p \<and> next_to_free p' = next_to_free p))"
  using assms by (auto simp: update_source_location_def split: option.splits)

lemma set_promise_waiter_async_links:
  assumes "set_promise_waiter_async hdl wa w = Inr w'"
  shows "registries w' = registries w \<and> destroyed w' = destroyed w \<and>
    (\<forall>a p. promises w a = Some p \<longrightarrow>
       (\<exists>p'. promises w' a = Some p' \<and> registry p' = registry p \<and> next' p' = next' p \<and>
            previous p' = previous p \<and> next_to_free p' = next_to_free p))"
  using assms by (auto simp: set_promise_waiter_async_def split: option.splits)

lemma set_promise_waiter_sync_links:
  assumes "set_promise_waiter_sync hdl wt w = Inr w'"
  shows "registries w' = registries w \<and> destroyed w' = destroyed w \<and>
    (\<forall>a p. promises w a = Some p \<longrightarrow>
       (\<exists>p'. promises w' a = Some p' \<and> registry p' = registry p \<and> next' p' = next' p \<and>
            previous p' = previous p \<and> next_to_free p' = next_to_free p))"
  using assms by (auto simp: set_promise_waiter_sync_def split: option.splits)

lemma reachable_inv:
  "reachable this owner w xs fs \<Longrightarrow> registry_inv this owner w xs fs"
proof (induction rule: reachable.induct)
  case (reach_make w0)
  then show ?case by (rule registry_inv_make)
next
  case (reach_new w xs fs a p)
  show ?case
    by (rule registry_inv_same_links [OF reach_new.IH]) (use reach_new.hyps in auto)
next
  case (reach_add w xs fs a p w')
  from registry_inv_registry [OF reach_add.IH] obtain r where r: "registries w this = Some r"
    by blast
  from add_inv [OF reach_add.IH r reach_add.hyps(2,3,4,5)] reach_add.hyps(6)
  show ?case by auto
next
  case (reach_mark w xs fs a tid fl w')
  from registry_inv_registry [OF reach_mark.IH] obtain r where r: "registries w this = Some r"
    by blast
  have rc: "ref_count r \<noteq> 1"
  proof
    assume one: "ref_count r = 1"
    from reach_mark.IH reach_mark.hyps(2) obtain p where p: "promises w a = Some p"
      and rg: "registry p = Some this"
      unfolding registry_inv_def by blast
    let ?w1 = "w\<lparr>promises := (promises w)(a \<mapsto> p\<lparr>next_to_free := free_head r\<rparr>),
                registries := (registries w)(this \<mapsto> r\<lparr>free_head := Some a\<rparr>)\<rparr>"
    have "decrement_ref_count this tid ?w1 = Some (Inr w')"
      using mark_for_deletion_unfold [OF p rg r, of tid fl] reach_mark.hyps(4) by simp
    moreover have "registries ?w1 this = Some (r\<lparr>free_head := Some a\<rparr>)"
      and "ref_count (r\<lparr>free_head := Some a\<rparr>) = 1"
      using one by simp_all
    ultimately have "registries w' this = None"
      using decrement_ref_count_last by blast
    with reach_mark.hyps(5) show False by simp
  qed
  from mark_inv [OF reach_mark.IH r reach_mark.hyps(2,3) rc, of tid fl] reach_mark.hyps(4)
  show ?case by auto
next
  case (reach_collect w xs fs w')
  from collect_returns [OF reach_collect.IH reach_collect.hyps(2)] reach_collect.IH
  show ?case by simp
next
  case (reach_increment w xs fs w')
  then show ?case by (auto intro: registry_inv_increment)
next
  case (reach_update_state w xs fs hdl st w')
  from update_state_links [OF reach_update_state.hyps(2)]
  show ?case by (intro registry_inv_same_links [OF reach_update_state.IH]) auto
next
  case (reach_update_source_location w xs fs hdl loc w')
  from update_source_location_links [OF reach_update_source_location.hyps(2)]
  show ?case by (intro registry_inv_same_links [OF reach_update_source_location.IH]) auto
next
  case (reach_set_waiter_async w xs fs hdl wa w')
  from set_promise_waiter_async_links [OF reach_set_waiter_async.hyps(2)]
  show ?case by (intro registry_inv_same_links [OF reach_set_waiter_async.IH]) auto
next
  case (reach_set_waiter_sync w xs fs hdl wt w')
  from set_promise_waiter_sync_links [OF reach_set_waiter_sync.hyps(2)]
  show ?case by (intro registry_inv_same_links [OF reach_set_waiter_sync.IH]) auto
qed

lemma registry_inv_for_promise:
  assumes "registry_inv this owner w xs fs"
  shows "for_promise this f w = Some (Inr (map f xs))"
  using assms unfolding registry_inv_def by (auto intro: for_promise_live)

section \<open>The example states, step by step\<close>

lemma add_one: "add 0 7 (make 0 7 example_world) 1 = Inr world_one"
  by (auto simp: add_def make_def increment_ref_count_def example_defs fun_eq_iff
      intro!: world.equality)

lemma add_two: "add 0 7 world_one 2 = Inr world_two"
  by (auto simp: add_def Let_def increment_ref_count_def example_defs fun_eq_iff
      intro!: world.equality)

lemma add_three: "add 0 7 world_two 3 = Inr world_added"
  by (auto simp: add_def Let_def increment_ref_count_def example_defs fun_eq_iff
      intro!: world.equality)

lemma mark_two: "mark_for_deletion 0 9 [] world_added 2 = Some (Inr world_marked)"
  by (subst mark_for_deletion_def, subst mark_loop.simps)
    (auto simp: decrement_ref_count_def Let_def compare_exchange_weak_def
      example_defs fun_eq_iff simp del: mark_loop.simps intro!: world.equality)

text \<open>
  The collection on \<open>world_marked\<close>, evaluated: record 2 is unlinked (record 3 gets
  \<open>next = 1\<close>, record 1 gets \<open>previous = 3\<close>) and destroyed; the read of its
  \<open>next_to_free\<close> then finds no record.
\<close>

lemma collect_marked: "garbage_collect 0 7 world_marked = Some (Inl InvalidPointer)"
  by (simp add: garbage_collect_def garbage_collect_loop.simps remove_def destroy_def Let_def
      example_defs)


lemma for_promise_marked: "for_promise 0 id world_marked = Some (Inr [3, 2, 1])"
  by (simp add: for_promise_def for_promise_loop.simps example_defs)

lemma reachable_world_marked: "reachable 0 7 world_marked [3, 2, 1] [2]"
proof -
  have r0: "reachable 0 7 (make 0 7 example_world) [] []"
    by (rule reach_make) (simp add: example_world_def)
  have r1: "reachable 0 7 world_one [1] []"
    by (rule reach_add [OF r0 _ _ _ _ add_one, where p = example_promise])
      (simp_all add: make_def example_world_def example_promise_def)
  have r2: "reachable 0 7 world_two [2, 1] []"
    by (rule reach_add [OF r1 _ _ _ _ add_two, where p = example_promise])
      (simp_all add: world_one_def example_promise_def)
  have r3: "reachable 0 7 world_added [3, 2, 1] []"
    by (rule reach_add [OF r2 _ _ _ _ add_three, where p = example_promise])
      (simp_all add: world_two_def example_promise_def)
  show ?thesis
    by (rule reach_mark [OF r3 _ _ mark_two]) (simp_all add: world_marked_def)
qed

lemma registry_inv_world_last: "registry_inv 0 7 world_last [1] [1]"
  by (simp add: registry_inv_def live_list_def free_list_def world_last_def example_promise_def)

section \<open>Marking a record for deletion\<close>

text \<open>
  C1 (as the code has it). For a record \<open>a\<close> whose \<open>registry\<close> is the registry \<open>this\<close>,
  \<open>mark_for_deletion\<close> passes the assertion, stores the old \<open>free_head\<close> in the record's
  \<open>next_to_free\<close> and makes the record the \<open>free_head\<close>, however many attempts of the
  exchange fail spuriously, and then decrements the reference count. The record's
  \<open>state\<close> is not written: when the call does not drop the last reference, it returns,
  and a snapshot of the record taken afterwards reports the state it had before.
\<close>

theorem mark_for_deletion_links_then_decrements:
  assumes p: "promises w a = Some p" and rg: "registry p = Some this"
    and r: "registries w this = Some r"
  shows "mark_for_deletion this tid fl w a =
           decrement_ref_count this tid
             (w\<lparr>promises := (promises w)(a \<mapsto> p\<lparr>next_to_free := free_head r\<rparr>),
                registries := (registries w)(this \<mapsto> r\<lparr>free_head := Some a\<rparr>)\<rparr>) \<and>
         (ref_count r \<noteq> 1 \<longrightarrow>
            mark_for_deletion this tid fl w a =
              Some (Inr (w\<lparr>promises := (promises w)(a \<mapsto> p\<lparr>next_to_free := free_head r\<rparr>),
                           registries := (registries w)(this \<mapsto>
                             r\<lparr>free_head := Some a, ref_count := ref_count r - 1\<rparr>)\<rparr>)) \<and>
            map_sum id snap_state
              (snapshot a
                (w\<lparr>promises := (promises w)(a \<mapsto> p\<lparr>next_to_free := free_head r\<rparr>),
                   registries := (registries w)(this \<mapsto>
                     r\<lparr>free_head := Some a, ref_count := ref_count r - 1\<rparr>)\<rparr>)) =
              Inr (state p))"
proof (intro conjI impI)
  let ?w1 = "w\<lparr>promises := (promises w)(a \<mapsto> p\<lparr>next_to_free := free_head r\<rparr>),
                registries := (registries w)(this \<mapsto> r\<lparr>free_head := Some a\<rparr>)\<rparr>"
  show eq: "mark_for_deletion this tid fl w a = decrement_ref_count this tid ?w1"
    by (rule mark_for_deletion_unfold [OF p rg r])
  show "map_sum id snap_state
          (snapshot a
            (w\<lparr>promises := (promises w)(a \<mapsto> p\<lparr>next_to_free := free_head r\<rparr>),
               registries := (registries w)(this \<mapsto>
                 r\<lparr>free_head := Some a, ref_count := ref_count r - 1\<rparr>)\<rparr>)) =
          Inr (state p)"
    by (simp add: snapshot_def)
  assume rc: "ref_count r \<noteq> 1"
  have "decrement_ref_count this tid ?w1 =
      Some (Inr (?w1\<lparr>registries := (registries ?w1)(this \<mapsto>
        r\<lparr>free_head := Some a\<rparr>\<lparr>ref_count := ref_count (r\<lparr>free_head := Some a\<rparr>) - 1\<rparr>)\<rparr>))"
    by (rule decrement_ref_count_keep) (use rc in simp_all)
  with eq show "mark_for_deletion this tid fl w a =
            Some (Inr (w\<lparr>promises := (promises w)(a \<mapsto> p\<lparr>next_to_free := free_head r\<rparr>),
                         registries := (registries w)(this \<mapsto>
                           r\<lparr>free_head := Some a, ref_count := ref_count r - 1\<rparr>)\<rparr>))"
    by simp
qed

theorem mark_for_deletion_links_then_decrements_witness:
  "map_option registry (promises world_added 2) = Some (Some 0) \<and>
   map_option free_head (registries world_added 0) = Some None \<and>
   map_option ref_count (registries world_added 0) = Some 3 \<and>
   map_sum id snap_state (snapshot 2 world_added) = Inr Running \<and>
   mark_for_deletion 0 9 [True, True] world_added 2 = Some (Inr world_marked) \<and>
   map_option next_to_free (promises world_marked 2) = Some None \<and>
   map_option free_head (registries world_marked 0) = Some (Some 2) \<and>
   map_option ref_count (registries world_marked 0) = Some 2 \<and>
   map_sum id snap_state (snapshot 2 world_marked) = Inr Running"
proof -
  let ?p = "example_promise\<lparr>registry := Some 0, next' := Some 1, previous := Some 3\<rparr>"
  let ?r = "\<lparr>owning_thread = 7, free_head = None, promise_head = Some 3, ref_count = 3 :: 64 word\<rparr>"
  let ?w' = "world_added\<lparr>promises := (promises world_added)(2 \<mapsto> ?p\<lparr>next_to_free := free_head ?r\<rparr>),
                registries := (registries world_added)(0 \<mapsto>
                  ?r\<lparr>free_head := Some 2, ref_count := ref_count ?r - 1\<rparr>)\<rparr>"
  have p: "promises world_added 2 = Some ?p" and rg: "registry ?p = Some 0"
    and r: "registries world_added 0 = Some ?r"
    by (simp_all add: example_defs)
  have rc: "ref_count ?r \<noteq> 1" by simp
  from mark_for_deletion_links_then_decrements [OF p rg r, of 9 "[True, True]"] rc
  have run: "mark_for_deletion 0 9 [True, True] world_added 2 = Some (Inr ?w')"
    and snap: "map_sum id snap_state (snapshot 2 ?w') = Inr (state ?p)"
    by blast+
  have same: "?w' = world_marked"
    by (auto simp: example_defs fun_eq_iff intro!: world.equality)
  from run snap show ?thesis
    unfolding same by (simp add: example_defs snapshot_def)
qed

text \<open>
  The state after marking is not \<open>Deleted\<close>: marking record 2 of \<open>world_added\<close> links it
  onto the free list, and a snapshot taken afterwards still reports \<open>Running\<close>.
\<close>

theorem mark_for_deletion_state_counterexample:
  "mark_for_deletion 0 9 [] world_added 2 = Some (Inr world_marked) \<and>
   map_option free_head (registries world_marked 0) = Some (Some 2) \<and>
   map_sum id snap_state (snapshot 2 world_marked) = Inr Running"
  using mark_two by (simp add: snapshot_def example_defs)

section \<open>Updating the state through a handle\<close>

text \<open>
  C2 (as the code has it). For an attached handle, \<open>update_state\<close> stores its argument
  as the record's state whatever the current state is: the result is never an
  assertion failure, and no transition is refused.
\<close>

theorem update_state_stores:
  assumes "promise_in_registry hdl = Some a" and "promises w a = Some p"
  shows "update_state hdl s2 w = Inr (w\<lparr>promises := (promises w)(a \<mapsto> p\<lparr>state := s2\<rparr>)\<rparr>)"
  using assms by (simp add: update_state_def)

theorem update_state_stores_witness:
  "promise_in_registry example_handle = Some 2 \<and>
   map_option state (promises world_added 2) = Some Running \<and>
   update_state example_handle Resolved world_added = Inr world_resolved \<and>
   update_state example_handle Suspended world_resolved =
     Inr (world_resolved\<lparr>promises := (promises world_resolved)(2 \<mapsto>
        example_promise\<lparr>state := Suspended, registry := Some 0, next' := Some 1,
                          previous := Some 3\<rparr>)\<rparr>)"
proof -
  have h: "promise_in_registry example_handle = Some 2" by (simp add: example_handle_def)
  have p: "promises world_added 2 =
      Some (example_promise\<lparr>registry := Some 0, next' := Some 1, previous := Some 3\<rparr>)"
    by (simp add: example_defs)
  have q: "promises world_resolved 2 =
      Some (example_promise\<lparr>state := Resolved, registry := Some 0, next' := Some 1,
                          previous := Some 3\<rparr>)"
    by (simp add: example_defs2)
  from update_state_stores [OF h p, of Resolved] update_state_stores [OF h q, of Suspended] h p
  show ?thesis by (simp add: example_defs2)
qed

text \<open>
  A regressing call is stored like any other: from \<open>Resolved\<close>, \<open>update_state\<close> with
  \<open>Running\<close> returns normally and the record reads \<open>Running\<close> again.
\<close>

theorem update_state_regress_counterexample:
  "map_sum id snap_state (snapshot 2 world_resolved) = Inr Resolved \<and>
   update_state example_handle Running world_resolved = Inr world_added \<and>
   map_sum id snap_state (snapshot 2 world_added) = Inr Running"
  by (auto simp: update_state_def snapshot_def example_defs2 fun_eq_iff intro!: world.equality)

section \<open>The single-thread lifecycle\<close>

text \<open>
  C3 (where the code stops). On a registry just made by thread \<open>T\<close>, after \<open>add\<close> of
  three distinct, freshly constructed records \<open>A\<close>, \<open>B\<close>, \<open>C\<close> a traversal visits
  \<open>[C, B, A]\<close>; after \<open>mark_for_deletion\<close> of \<open>B\<close> (by any thread) it still visits
  \<open>[C, B, A]\<close>. The \<open>garbage_collect\<close> by \<open>T\<close> that follows does not return: having
  unlinked and destroyed \<open>B\<close>, its loop reads \<open>B\<close>'s \<open>next_to_free\<close>.
\<close>

theorem single_thread_lifecycle_collect_fails:
  assumes dist: "distinct [A, B, C]"
    and pA: "promises w A = Some pA" "previous pA = None"
    and pB: "promises w B = Some pB" "previous pB = None"
    and pC: "promises w C = Some pC" "previous pC = None"
    and des: "destroyed w = []"
  shows "\<exists>w1 w2 w3 w4.
           add this T (make this T w) A = Inr w1 \<and>
           add this T w1 B = Inr w2 \<and>
           add this T w2 C = Inr w3 \<and>
           for_promise this id w3 = Some (Inr [C, B, A]) \<and>
           mark_for_deletion this U fl w3 B = Some (Inr w4) \<and>
           for_promise this id w4 = Some (Inr [C, B, A]) \<and>
           (\<exists>r u1 u2. registries w4 this = Some r \<and> free_head r = Some B \<and>
              remove this (w4\<lparr>registries := (registries w4)(this \<mapsto> r\<lparr>free_head := None\<rparr>)\<rparr>) B
                = Inr u1 \<and>
              destroy B u1 = Inr u2 \<and> promises u2 B = None) \<and>
           garbage_collect this T w4 = Some (Inl InvalidPointer)"
proof -
  let ?w0 = "make this T w"
  let ?r0 = "\<lparr>owning_thread = T, free_head = None, promise_head = None, ref_count = 0\<rparr>"
  have inv0: "registry_inv this T ?w0 [] []" using des by (rule registry_inv_make)
  have r0: "registries ?w0 this = Some ?r0" by (simp add: make_def)
  have h0: "promises ?w0 = promises w" "destroyed ?w0 = []" using des by (simp_all add: make_def)
  from add_inv [OF inv0 r0, of A pA] pA h0 obtain w1 where
    a1: "add this T ?w0 A = Inr w1" and inv1: "registry_inv this T w1 [A] []"
    and r1: "registries w1 this = Some (?r0\<lparr>promise_head := Some A, ref_count := 1\<rparr>)"
    and d1: "destroyed w1 = []"
    and o1: "\<forall>b. b \<notin> set [A] \<longrightarrow> promises w1 b = promises w b"
    by auto
  from o1 dist pB have pB1: "promises w1 B = Some pB" by simp
  from add_inv [OF inv1 r1 pB1 pB(2)] dist d1 obtain w2 where
    a2: "add this T w1 B = Inr w2" and inv2: "registry_inv this T w2 [B, A] []"
    and r2: "registries w2 this = Some (?r0\<lparr>promise_head := Some B, ref_count := 2\<rparr>)"
    and d2: "destroyed w2 = []"
    and o2: "\<forall>b. b \<notin> set [B, A] \<longrightarrow> promises w2 b = promises w1 b"
    by auto
  from o1 o2 dist pC have pC2: "promises w2 C = Some pC" by simp
  from add_inv [OF inv2 r2 pC2 pC(2)] dist d2 obtain w3 where
    a3: "add this T w2 C = Inr w3" and inv3: "registry_inv this T w3 [C, B, A] []"
    and r3: "registries w3 this = Some (?r0\<lparr>promise_head := Some C, ref_count := 3\<rparr>)"
    by auto
  have f3: "for_promise this id w3 = Some (Inr [C, B, A])"
    using registry_inv_for_promise [OF inv3, of id] by simp
  let ?r4 = "?r0\<lparr>promise_head := Some C, ref_count := 3, free_head := Some B, ref_count := 2\<rparr>"
  from mark_inv [OF inv3 r3, of B U fl] obtain w4 where
    m4: "mark_for_deletion this U fl w3 B = Some (Inr w4)"
    and inv4: "registry_inv this T w4 [C, B, A] [B]"
    and r4: "registries w4 this = Some ?r4"
    by auto
  have f4: "for_promise this id w4 = Some (Inr [C, B, A])"
    using registry_inv_for_promise [OF inv4, of id] by simp
  from first_collect_step [OF inv4 r4] obtain u1 u2 where
    s5: "remove this (w4\<lparr>registries := (registries w4)(this \<mapsto> ?r4\<lparr>free_head := None\<rparr>)\<rparr>) B = Inr u1"
      "destroy B u1 = Inr u2" "promises u2 B = None"
    by blast
  have g5: "garbage_collect this T w4 = Some (Inl InvalidPointer)"
    by (subst garbage_collect_result [OF r4]) simp_all
  have "free_head ?r4 = Some B" by simp
  with r4 s5 have "\<exists>r u1 u2. registries w4 this = Some r \<and> free_head r = Some B \<and>
              remove this (w4\<lparr>registries := (registries w4)(this \<mapsto> r\<lparr>free_head := None\<rparr>)\<rparr>) B
                = Inr u1 \<and>
              destroy B u1 = Inr u2 \<and> promises u2 B = None"
    by blast
  with a1 a2 a3 f3 m4 f4 g5 show ?thesis by blast
qed

theorem single_thread_lifecycle_collect_fails_witness:
  "add 0 7 (make 0 7 example_world) 1 = Inr world_one \<and>
   add 0 7 world_one 2 = Inr world_two \<and>
   add 0 7 world_two 3 = Inr world_added \<and>
   for_promise 0 id world_added = Some (Inr [3, 2, 1]) \<and>
   mark_for_deletion 0 9 [] world_added 2 = Some (Inr world_marked) \<and>
   for_promise 0 id world_marked = Some (Inr [3, 2, 1]) \<and>
   garbage_collect 0 7 world_marked = Some (Inl InvalidPointer)"
proof -
  have "distinct [1, 2, 3 :: nat]" by simp
  moreover have "promises example_world 1 = Some example_promise"
    "promises example_world 2 = Some example_promise"
    "promises example_world 3 = Some example_promise"
    "previous example_promise = None" "destroyed example_world = []"
    by (simp_all add: example_world_def example_promise_def)
  ultimately obtain w1 w2 w3 w4 where
    "add 0 7 (make 0 7 example_world) 1 = Inr w1" "add 0 7 w1 2 = Inr w2"
    "add 0 7 w2 3 = Inr w3" "for_promise 0 id w3 = Some (Inr [3, 2, 1])"
    "mark_for_deletion 0 9 [] w3 2 = Some (Inr w4)"
    "for_promise 0 id w4 = Some (Inr [3, 2, 1])"
    "garbage_collect 0 7 w4 = Some (Inl InvalidPointer)"
    using single_thread_lifecycle_collect_fails [of 1 2 3 example_world example_promise
        example_promise example_promise 0 7 9 "[]"]
    by blast
  then show ?thesis
    using add_one add_two add_three mark_two collect_marked by simp
qed

section \<open>Collection after marks\<close>

text \<open>
  C4 (where the code stops). In every state reached by the registry's operations in
  which records are marked, \<open>f\<close> the latest: a traversal visits the live records,
  \<open>f\<close> among them, and \<open>free_head\<close> is \<open>f\<close>; \<open>garbage_collect\<close> on the owner thread
  unlinks \<open>f\<close> and destroys it, after which \<open>f\<close> is no longer in the store; the loop
  then reads \<open>f\<close>'s \<open>next_to_free\<close>, and the call does not return a state.
\<close>

theorem garbage_collect_after_marks_use_after_free:
  assumes "reachable this owner w xs (f # fs)"
  shows "for_promise this id w = Some (Inr xs) \<and> f \<in> set xs \<and>
         (\<exists>r w1 w2. registries w this = Some r \<and> free_head r = Some f \<and>
            remove this (w\<lparr>registries := (registries w)(this \<mapsto> r\<lparr>free_head := None\<rparr>)\<rparr>) f
              = Inr w1 \<and>
            live_list (promises w1) (remove1 f xs) \<and>
            destroy f w1 = Inr w2 \<and> promises w2 f = None \<and>
            destroyed w2 = destroyed w @ [f]) \<and>
         garbage_collect this owner w = Some (Inl InvalidPointer)"
proof -
  from assms have inv: "registry_inv this owner w xs (f # fs)" by (rule reachable_inv)
  then obtain r where r: "registries w this = Some r" and own: "owning_thread r = owner"
    and fh: "free_head r = Some f" and fx: "f \<in> set xs"
    unfolding registry_inv_def by auto
  from first_collect_step [OF inv r] r fh
  have step: "\<exists>r w1 w2. registries w this = Some r \<and> free_head r = Some f \<and>
            remove this (w\<lparr>registries := (registries w)(this \<mapsto> r\<lparr>free_head := None\<rparr>)\<rparr>) f
              = Inr w1 \<and>
            live_list (promises w1) (remove1 f xs) \<and>
            destroy f w1 = Inr w2 \<and> promises w2 f = None \<and>
            destroyed w2 = destroyed w @ [f]"
    by blast
  have "garbage_collect this owner w = Some (Inl InvalidPointer)"
    by (subst garbage_collect_result [OF r]) (use own fh in simp_all)
  with registry_inv_for_promise [OF inv, of id] fx step show ?thesis by simp
qed

theorem garbage_collect_after_marks_use_after_free_witness:
  "reachable 0 7 world_marked [3, 2, 1] [2] \<and>
   for_promise 0 id world_marked = Some (Inr [3, 2, 1]) \<and>
   map_option free_head (registries world_marked 0) = Some (Some 2) \<and>
   garbage_collect 0 7 world_marked = Some (Inl InvalidPointer)"
  using garbage_collect_after_marks_use_after_free [OF reachable_world_marked]
    reachable_world_marked for_promise_marked collect_marked
  by (auto simp: example_defs)

section \<open>Insertion is restricted to the owning thread\<close>

text \<open>
  C5. \<open>add\<close> called by a thread other than the registry's \<open>owning_thread\<close> fails the
  assertion: the call aborts, and since the assertion comes before the first store,
  there is no resulting state, partially inserted or otherwise.
\<close>

theorem add_wrong_thread_fatal:
  assumes "registries w this = Some r" and "tid \<noteq> owning_thread r"
  shows "add this tid w promise = Inl AssertionFailed"
  using assms by (simp add: add_def)

theorem add_wrong_thread_fatal_witness:
  "registries (make 0 7 example_world) 0 =
     Some \<lparr>owning_thread = 7, free_head = None, promise_head = None, ref_count = 0\<rparr> \<and>
   (9::nat) \<noteq> 7 \<and>
   add 0 9 (make 0 7 example_world) 1 = Inl AssertionFailed"
proof -
  have r: "registries (make 0 7 example_world) 0 =
     Some \<lparr>owning_thread = 7, free_head = None, promise_head = None, ref_count = 0\<rparr>"
    by (simp add: make_def)
  have t: "(9::nat) \<noteq> owning_thread
      \<lparr>owning_thread = 7, free_head = None, promise_head = None, ref_count = 0\<rparr>"
    by simp
  from add_wrong_thread_fatal [OF r t, of 1] r show ?thesis by simp
qed

section \<open>Dropping a reference\<close>

text \<open>
  C6 (what the code does). A \<open>decrement_ref_count\<close> that finds the count at any value
  but one only stores the count minus one. One that finds it at one runs
  \<open>garbage_collect\<close>: with an empty free list the registry is then deleted and nothing
  else changes; with a record on the free list the collection reads the record it has
  just destroyed, and the call returns no state.
\<close>

theorem decrement_ref_count_cases:
  assumes r: "registries w this = Some r"
  shows "(ref_count r \<noteq> 1 \<longrightarrow>
            decrement_ref_count this tid w =
              Some (Inr (w\<lparr>registries := (registries w)(this \<mapsto> r\<lparr>ref_count := ref_count r - 1\<rparr>)\<rparr>))) \<and>
         (ref_count r = 1 \<and> free_head r = None \<longrightarrow>
            decrement_ref_count this tid w =
              Some (Inr (w\<lparr>registries := (registries w)(this := None)\<rparr>))) \<and>
         (ref_count r = 1 \<and> free_head r \<noteq> None \<longrightarrow>
            decrement_ref_count this tid w = Some (Inl InvalidPointer))"
proof (intro conjI impI)
  assume "ref_count r \<noteq> 1"
  with r show "decrement_ref_count this tid w =
      Some (Inr (w\<lparr>registries := (registries w)(this \<mapsto> r\<lparr>ref_count := ref_count r - 1\<rparr>)\<rparr>))"
    by (rule decrement_ref_count_keep)
next
  let ?r1 = "r\<lparr>ref_count := ref_count r - 1\<rparr>"
  let ?w1 = "w\<lparr>registries := (registries w)(this \<mapsto> ?r1)\<rparr>"
  have r1: "registries ?w1 this = Some ?r1" by simp
  {
    assume a: "ref_count r = 1 \<and> free_head r = None"
    then have ok: "ref_count ?r1 = 0 \<or> tid = owning_thread ?r1" by simp
    have "garbage_collect this tid ?w1 = Some (Inr ?w1)"
      by (subst garbage_collect_result [OF r1 ok]) (use a in simp)
    with r a show "decrement_ref_count this tid w =
        Some (Inr (w\<lparr>registries := (registries w)(this := None)\<rparr>))"
      by (simp add: decrement_ref_count_def delete_this_def)
  }
  {
    assume a: "ref_count r = 1 \<and> free_head r \<noteq> None"
    then have ok: "ref_count ?r1 = 0 \<or> tid = owning_thread ?r1" by simp
    have "garbage_collect this tid ?w1 = Some (Inl InvalidPointer)"
      by (subst garbage_collect_result [OF r1 ok]) (use a in simp)
    with r a show "decrement_ref_count this tid w = Some (Inl InvalidPointer)"
      by (simp add: decrement_ref_count_def)
  }
qed

theorem decrement_ref_count_cases_witness:
  "registry_inv 0 7 world_last [1] [1] \<and>
   map_option ref_count (registries world_last 0) = Some 1 \<and>
   map_option free_head (registries world_last 0) = Some (Some 1) \<and>
   decrement_ref_count 0 9 world_last = Some (Inl InvalidPointer) \<and>
   map_option ref_count (registries world_one 0) = Some 1 \<and>
   map_option free_head (registries world_one 0) = Some None \<and>
   decrement_ref_count 0 9 world_one = Some (Inr (world_one\<lparr>registries := Map.empty\<rparr>)) \<and>
   map_option ref_count (registries world_marked 0) = Some 2 \<and>
   decrement_ref_count 0 9 world_marked =
     Some (Inr (world_marked\<lparr>registries := [0 \<mapsto> \<lparr>owning_thread = 7, free_head = Some 2,
                                         promise_head = Some 3, ref_count = 1\<rparr>]\<rparr>))"
proof -
  let ?r = "\<lparr>owning_thread = 7, free_head = Some 1, promise_head = Some 1, ref_count = 1 :: 64 word\<rparr>"
  let ?r1 = "\<lparr>owning_thread = 7, free_head = None, promise_head = Some 1, ref_count = 1 :: 64 word\<rparr>"
  let ?r2 = "\<lparr>owning_thread = 7, free_head = Some 2, promise_head = Some 3, ref_count = 2 :: 64 word\<rparr>"
  have r: "registries world_last 0 = Some ?r" by (simp add: world_last_def)
  have r1: "registries world_one 0 = Some ?r1" by (simp add: example_defs)
  have r2: "registries world_marked 0 = Some ?r2" by (simp add: example_defs)
  from decrement_ref_count_cases [OF r, of 9]
  have a: "decrement_ref_count 0 9 world_last = Some (Inl InvalidPointer)" by simp
  from decrement_ref_count_cases [OF r1, of 9]
  have b: "decrement_ref_count 0 9 world_one =
      Some (Inr (world_one\<lparr>registries := (registries world_one)(0 := None)\<rparr>))" by simp
  from decrement_ref_count_cases [OF r2, of 9]
  have c: "decrement_ref_count 0 9 world_marked =
     Some (Inr (world_marked\<lparr>registries := (registries world_marked)(0 \<mapsto> ?r2\<lparr>ref_count := ref_count ?r2 - 1\<rparr>)\<rparr>))"
    by simp
  show ?thesis
    using a b c registry_inv_world_last r r1 r2
    by (auto simp: example_defs world_last_def)
qed

section \<open>Collecting twice\<close>



section \<open>Updating the source location through a handle\<close>

text \<open>
  C8. For an attached handle, \<open>update_source_location\<close> sets the record's line to the
  line of its argument and changes nothing else: file name, function name, identity,
  thread, waiter, state and the list pointers of the record, every other record,
  the registries and the destruction log are as before.
\<close>

theorem update_source_location_frame:
  assumes "promise_in_registry hdl = Some a" and "promises w a = Some p"
  shows "\<exists>w' p'. update_source_location hdl loc w = Inr w' \<and>
           promises w' a = Some p' \<and>
           line (source_location p') = loc_line loc \<and>
           file_name (source_location p') = file_name (source_location p) \<and>
           function_name (source_location p') = function_name (source_location p) \<and>
           thread p' = thread p \<and> waiter p' = waiter p \<and> state p' = state p \<and>
           registry p' = registry p \<and> next' p' = next' p \<and> previous p' = previous p \<and>
           next_to_free p' = next_to_free p \<and>
           handle_id hdl = Some a \<and> map_sum id snap_id (snapshot a w') = Inr a \<and>
           (\<forall>b. b \<noteq> a \<longrightarrow> promises w' b = promises w b) \<and>
           registries w' = registries w \<and> destroyed w' = destroyed w"
  using assms
  by (simp add: update_source_location_def handle_id_def Promise_id_def snapshot_def)

theorem update_source_location_frame_witness:
  "promise_in_registry example_handle = Some 2 \<and>
   snapshot 2 world_added =
     Inr \<lparr>snap_id = 2, snap_thread = \<lparr>thread_name = ''worker'', thread_ident = 7\<rparr>,
          snap_source_location =
            \<lparr>snap_file_name = ''query.cpp'', snap_function_name = ''run'', snap_line = 10\<rparr>,
          snap_waiter = NoWaiter, snap_state = Running\<rparr> \<and>
   (\<exists>w'. update_source_location example_handle
           \<lparr>loc_file_name = ''other.cpp'', loc_function_name = ''walk'', loc_line = 42\<rparr>
           world_added = Inr w' \<and>
         snapshot 2 w' =
           Inr \<lparr>snap_id = 2, snap_thread = \<lparr>thread_name = ''worker'', thread_ident = 7\<rparr>,
                snap_source_location =
                  \<lparr>snap_file_name = ''query.cpp'', snap_function_name = ''run'', snap_line = 42\<rparr>,
                snap_waiter = NoWaiter, snap_state = Running\<rparr> \<and>
         map_option next' (promises w' 2) = Some (Some 1) \<and>
         map_option previous (promises w' 2) = Some (Some 3) \<and>
         promises w' 1 = promises world_added 1 \<and> promises w' 3 = promises world_added 3 \<and>
         registries w' = registries world_added)"
proof -
  let ?p = "example_promise\<lparr>registry := Some 0, next' := Some 1, previous := Some 3\<rparr>"
  let ?loc = "\<lparr>loc_file_name = ''other.cpp'', loc_function_name = ''walk'', loc_line = 42\<rparr>"
  have h: "promise_in_registry example_handle = Some 2" by (simp add: example_handle_def)
  have p: "promises world_added 2 = Some ?p" by (simp add: example_defs)
  from update_source_location_frame [OF h p, of ?loc] obtain w' p' where
    run: "update_source_location example_handle ?loc world_added = Inr w'"
    and p': "promises w' 2 = Some p'"
    and f: "line (source_location p') = loc_line ?loc"
      "file_name (source_location p') = file_name (source_location ?p)"
      "function_name (source_location p') = function_name (source_location ?p)"
      "thread p' = thread ?p" "waiter p' = waiter ?p" "state p' = state ?p"
      "next' p' = next' ?p" "previous p' = previous ?p"
    and o: "\<forall>b. b \<noteq> 2 \<longrightarrow> promises w' b = promises world_added b"
      "registries w' = registries world_added"
    by blast
  have "snapshot 2 w' =
           Inr \<lparr>snap_id = 2, snap_thread = \<lparr>thread_name = ''worker'', thread_ident = 7\<rparr>,
                snap_source_location =
                  \<lparr>snap_file_name = ''query.cpp'', snap_function_name = ''run'', snap_line = 42\<rparr>,
                snap_waiter = NoWaiter, snap_state = Running\<rparr>"
    using p' f by (simp add: snapshot_def Promise_id_def SourceLocation_snapshot_def example_promise_def)
  moreover have "snapshot 2 world_added =
     Inr \<lparr>snap_id = 2, snap_thread = \<lparr>thread_name = ''worker'', thread_ident = 7\<rparr>,
          snap_source_location =
            \<lparr>snap_file_name = ''query.cpp'', snap_function_name = ''run'', snap_line = 10\<rparr>,
          snap_waiter = NoWaiter, snap_state = Running\<rparr>"
    by (simp add: snapshot_def Promise_id_def SourceLocation_snapshot_def example_defs)
  ultimately show ?thesis using h run p' f o by auto
qed

section \<open>The empty handle\<close>

text \<open>
  C9. On a default-constructed handle \<open>id()\<close> is null, every mutator returns the state
  unchanged, and so does destruction.
\<close>

theorem empty_handle:
  "handle_id AddToAsyncRegistry_default = None \<and>
   set_promise_waiter_async AddToAsyncRegistry_default wa w = Inr w \<and>
   set_promise_waiter_sync AddToAsyncRegistry_default wt w = Inr w \<and>
   update_source_location AddToAsyncRegistry_default loc w = Inr w \<and>
   update_state AddToAsyncRegistry_default st w = Inr w \<and>
   AddToAsyncRegistry_destructor AddToAsyncRegistry_default tid fl w = Some (Inr w)"
  by (simp add: AddToAsyncRegistry_default_def handle_id_def set_promise_waiter_async_def
      set_promise_waiter_sync_def update_source_location_def update_state_def
      AddToAsyncRegistry_destructor_def)

section \<open>A fresh registry\<close>

text \<open>
  C10. A registry just made has reference count zero, both heads null and the making
  thread as owner; a traversal of it calls the callback on nothing, and a collection
  on it returns the state unchanged.
\<close>

theorem make_fresh:
  "registries (make this tid w) this =
     Some \<lparr>owning_thread = tid, free_head = None, promise_head = None, ref_count = 0\<rparr> \<and>
   for_promise this f (make this tid w) = Some (Inr []) \<and>
   garbage_collect this tid (make this tid w) = Some (Inr (make this tid w)) \<and>
   destroyed (make this tid w) = destroyed w \<and> promises (make this tid w) = promises w"
  by (simp add: make_def for_promise_def garbage_collect_def for_promise_loop_None garbage_collect_loop_None)

end
